theory Spec2Isabelle
  imports Main "HOL-Library.Word"
begin

unbundle bit_operations_syntax

section \<open>Bytes, files and the Go library calls the store relies on\<close>

type_synonym byte = "8 word"
type_synonym uint32 = "32 word"

text \<open>
  The errors the program can see: \<open>EOF\<close> is \<open>io.EOF\<close> (a positioned read that ran past
  the end of the file), \<open>ErrClosed\<close> is \<open>os.ErrClosed\<close> (any call on a closed handle),
  \<open>ErrNotExist\<close> and \<open>ErrIsDir\<close> are the failures of opening a path that does not
  exist and of opening a directory for writing, and \<open>Errorf s\<close> is the
  value of \<open>fmt.Errorf\<close> with the formatted message \<open>s\<close>.
\<close>

datatype error = EOF | ErrClosed | ErrNotExist | ErrIsDir | Errorf string

text \<open>
  An open \<open>*os.File\<close>: the bytes of the file it is opened on, and whether the handle has
  been closed. The two handles of a store are opened on files with different names, so
  each handle carries its own contents.
\<close>

record File =
  contents :: "byte list"
  closed :: bool

text \<open>
  \<open>f.ReadAt(buf, off)\<close> with \<open>len(buf) = n\<close>: it returns a nil error exactly when all
  \<open>n\<close> bytes lie inside the file; a short read is \<open>io.EOF\<close>. Every caller drops the
  buffer when the error is not nil, so the model returns the bytes only on success.
\<close>

definition ReadAt :: "File \<Rightarrow> nat \<Rightarrow> nat \<Rightarrow> error + byte list" where
  "ReadAt f n off =
     (if closed f then Inl ErrClosed
      else if off + n \<le> length (contents f) then Inr (take n (drop off (contents f)))
      else Inl EOF)"

text \<open>
  \<open>f.WriteAt(buf, off)\<close>: overwrites \<open>len(buf)\<close> bytes at \<open>off\<close>; a write that starts
  beyond the end of the file fills the gap with zero bytes, and a write that ends beyond
  it makes the file longer.
\<close>

definition WriteAt :: "File \<Rightarrow> byte list \<Rightarrow> nat \<Rightarrow> error option \<times> File" where
  "WriteAt f buf off =
     (if closed f then (Some ErrClosed, f)
      else (None, f\<lparr>contents :=
              take off (contents f) @ replicate (off - length (contents f)) 0
                @ buf @ drop (off + length buf) (contents f)\<rparr>))"

text \<open>\<open>f.Stat()\<close> followed by \<open>fi.Size()\<close>.\<close>

definition Stat_Size :: "File \<Rightarrow> error + nat" where
  "Stat_Size f = (if closed f then Inl ErrClosed else Inr (length (contents f)))"

text \<open>
  \<open>binary.LittleEndian.PutUint32(b, v)\<close> stores \<open>v\<close> in the first four bytes of \<open>b\<close>,
  and \<open>binary.LittleEndian.Uint32(b)\<close> reads them back. Go panics on a slice shorter
  than four bytes; every call of the program passes a slice of at least four (a fresh
  buffer of 4 or 72 bytes, the 64-byte value, \<open>buf[0:4]\<close> or \<open>buf[8:12]\<close> of a 72-byte
  buffer).
\<close>

definition PutUint32 :: "byte list \<Rightarrow> uint32 \<Rightarrow> byte list" where
  "PutUint32 b v =
     [ucast v, ucast (drop_bit 8 v), ucast (drop_bit 16 v), ucast (drop_bit 24 v)] @ drop 4 b"

fun Uint32 :: "byte list \<Rightarrow> uint32" where
  "Uint32 (b0 # b1 # b2 # b3 # bs) =
     ucast b0 OR push_bit 8 (ucast b1) OR push_bit 16 (ucast b2) OR push_bit 24 (ucast b3)"
| "Uint32 _ = 0"

text \<open>
  The builtin \<open>copy(dst, src)\<close>: the first \<open>min (len dst) (len src)\<close> bytes of \<open>dst\<close>
  are replaced, the length of \<open>dst\<close> stays.
\<close>

definition copy :: "byte list \<Rightarrow> byte list \<Rightarrow> byte list" where
  "copy dst src = take (length dst) src @ drop (length src) dst"

section \<open>The node record and its slot\<close>

definition nodeSize :: nat where
  "nodeSize = 72"

text \<open>\<open>internal.Node\<close>; \<open>Value\<close> is a \<open>[64]byte\<close>. The two padding bytes have no name.\<close>

record Node =
  ID :: uint32
  Type :: byte
  InUse :: byte
  Value :: "byte list"

text \<open>The zero value \<open>internal.Node{}\<close>.\<close>

definition zeroNode :: Node where
  "zeroNode = \<lparr>ID = 0, Type = 0, InUse = 0, Value = replicate 64 0\<rparr>"

text \<open>
  The serialisation that \<open>writeNode\<close> and \<open>deleteNode\<close> both write out in line:
  \<^verbatim>\<open>
  buf := make([]byte, nodeSize)
  binary.LittleEndian.PutUint32(buf[0:], node.ID)
  buf[4] = node.InUse
  copy(buf[8:], node.Value[:])
  \<close>
\<close>

definition serializeNode :: "Node \<Rightarrow> byte list" where
  "serializeNode node =
     (let buf = replicate nodeSize 0;
          buf = PutUint32 buf (ID node);
          buf = buf[4 := InUse node]
      in take 8 buf @ copy (drop 8 buf) (Value node))"

text \<open>
  The decoding that \<open>readNode\<close> and \<open>readStore\<close> both apply to a 72-byte buffer:
  \<^verbatim>\<open>
  node := internal.Node{ID: binary.LittleEndian.Uint32(buf[0:4]), InUse: buf[4]}
  copy(node.Value[:], buf[8:72])
  \<close>
\<close>

definition decodeNode :: "byte list \<Rightarrow> Node" where
  "decodeNode buf =
     (let node = zeroNode\<lparr>ID := Uint32 (take 4 buf), InUse := buf ! 4\<rparr>
      in node\<lparr>Value := copy (Value node) (drop 8 (take 72 buf))\<rparr>)"

section \<open>The free-list head\<close>

definition getFree :: "File \<Rightarrow> error + uint32" where
  "getFree f =
     (case ReadAt f 4 0 of
        Inl err \<Rightarrow> Inr (NOT 0)
      | Inr buf \<Rightarrow> Inr (Uint32 buf))"

definition setFree :: "File \<Rightarrow> uint32 \<Rightarrow> error option \<times> File" where
  "setFree f ident = WriteAt f (PutUint32 (replicate 4 0) ident) 0"

section \<open>Insert, delete and read\<close>

text \<open>
  \<open>writeNode\<close>. \<open>json.Marshal\<close> belongs to the Go library; its result on the value is
  the parameter \<open>marshal\<close>. The result is the returned error and the two files as the
  call leaves them.
\<close>

definition writeNode ::
  "(string \<Rightarrow> byte list) \<Rightarrow> File \<Rightarrow> File \<Rightarrow> string \<Rightarrow> error option \<times> File \<times> File" where
  "writeNode marshal nodestore freestore val =
     (case getFree freestore of
        Inl err \<Rightarrow> (Some err, nodestore, freestore)
      | Inr freeID \<Rightarrow>
         (let node = zeroNode\<lparr>InUse := 1\<rparr>;
              jsonVal = marshal val;
              fixed = copy (replicate 64 0) jsonVal;
              node = node\<lparr>Value := fixed\<rparr>
          in if freeID \<noteq> NOT 0 then
               (let offset = unat freeID * nodeSize;
                    node = node\<lparr>ID := freeID\<rparr>
                in case ReadAt nodestore nodeSize offset of
                     Inl err \<Rightarrow> (Some err, nodestore, freestore)
                   | Inr buf \<Rightarrow>
                      (let nextFreeID = Uint32 (take 4 (drop 8 buf))
                       in case setFree freestore nextFreeID of
                            (Some err, freestore') \<Rightarrow> (Some err, nodestore, freestore')
                          | (None, freestore') \<Rightarrow>
                             (case WriteAt nodestore (serializeNode node) offset of
                                (err, nodestore') \<Rightarrow> (err, nodestore', freestore'))))
             else
               (case Stat_Size nodestore of
                  Inl err \<Rightarrow> (Some err, nodestore, freestore)
                | Inr offset \<Rightarrow>
                   (let node = node\<lparr>ID := word_of_nat (offset div nodeSize)\<rparr>
                    in case WriteAt nodestore (serializeNode node) offset of
                         (err, nodestore') \<Rightarrow> (err, nodestore', freestore)))))"

definition deleteNode :: "File \<Rightarrow> File \<Rightarrow> uint32 \<Rightarrow> error option \<times> File \<times> File" where
  "deleteNode nodestore freestore ident =
     (let offset = unat ident * nodeSize
      in case getFree freestore of
           Inl err \<Rightarrow> (Some err, nodestore, freestore)
         | Inr currentHead \<Rightarrow>
            (let node = zeroNode\<lparr>ID := ident\<rparr>;
                 node = node\<lparr>InUse := 0\<rparr>;
                 node = node\<lparr>Value := PutUint32 (Value node) currentHead\<rparr>
             in case WriteAt nodestore (serializeNode node) offset of
                  (Some err, nodestore') \<Rightarrow> (Some err, nodestore', freestore)
                | (None, nodestore') \<Rightarrow>
                   (case setFree freestore ident of
                      (err, freestore') \<Rightarrow> (err, nodestore', freestore'))))"

definition readNode :: "File \<Rightarrow> uint32 \<Rightarrow> error + Node" where
  "readNode f ident =
     (let offset = unat ident * nodeSize
      in case ReadAt f nodeSize offset of
           Inl err \<Rightarrow> Inl err
         | Inr buf \<Rightarrow> Inr (decodeNode buf))"

text \<open>
  The loop of \<open>readStore\<close>: \<open>i\<close> counts up from 0, and the first read that returns an
  error ends the loop.
\<close>

function readStore_loop :: "File \<Rightarrow> nat \<Rightarrow> Node list \<Rightarrow> Node list" where
  "readStore_loop f i nodes =
     (case ReadAt f nodeSize (i * nodeSize) of
        Inl err \<Rightarrow> nodes
      | Inr buf \<Rightarrow> readStore_loop f (i + 1) (nodes @ [decodeNode buf]))"
  by pat_completeness auto
termination
  by (relation "measure (\<lambda>(f, i, nodes). length (contents f) - i * nodeSize)")
     (auto simp: ReadAt_def nodeSize_def split: if_splits)

declare readStore_loop.simps [simp del]

definition readStore :: "File \<Rightarrow> error + Node list" where
  "readStore f = Inr (readStore_loop f 0 [])"

text \<open>
  \<open>comReadAll\<close> prints one line for every node of \<open>readStore\<close> whose \<open>InUse\<close> is 1; the
  model returns the printed records (ID and value) in the order of printing.
\<close>

definition comReadAll :: "File \<Rightarrow> error + (uint32 \<times> byte list) list" where
  "comReadAll nodestore =
     (case readStore nodestore of
        Inl err \<Rightarrow> Inl err
      | Inr nodes \<Rightarrow> Inr (map (\<lambda>node. (ID node, Value node)) (filter (\<lambda>node. InUse node = 1) nodes)))"

text \<open>
  \<open>comInsert\<close> and \<open>comDelete\<close> pass the two handles of the store to \<open>writeNode\<close>
  and \<open>deleteNode\<close> and return their error.
\<close>

definition comInsert ::
  "(string \<Rightarrow> byte list) \<Rightarrow> File \<Rightarrow> File \<Rightarrow> string \<Rightarrow> error option \<times> File \<times> File" where
  "comInsert marshal nodestore freestore val =
     (case writeNode marshal nodestore freestore val of
        (Some err, nodestore', freestore') \<Rightarrow> (Some err, nodestore', freestore')
      | (None, nodestore', freestore') \<Rightarrow> (None, nodestore', freestore'))"

definition comDelete :: "File \<Rightarrow> File \<Rightarrow> uint32 \<Rightarrow> error option \<times> File \<times> File" where
  "comDelete nodestore freestore ident =
     (case deleteNode nodestore freestore ident of
        (Some err, nodestore', freestore') \<Rightarrow> (Some err, nodestore', freestore')
      | (None, nodestore', freestore') \<Rightarrow> (None, nodestore', freestore'))"

text \<open>
  The command loop of \<open>main\<close>, for the insert and delete commands on one store: it
  runs \<open>comInsert\<close> or \<open>comDelete\<close>, prints the error if there is one, and reads the
  next command. \<open>runAll\<close> gives the errors in order and the files at the end.
\<close>

datatype command = Insert string | Delete uint32

fun runCommand ::
  "(string \<Rightarrow> byte list) \<Rightarrow> File \<Rightarrow> File \<Rightarrow> command \<Rightarrow> error option \<times> File \<times> File" where
  "runCommand marshal nodestore freestore (Insert val) = comInsert marshal nodestore freestore val"
| "runCommand marshal nodestore freestore (Delete ident) = comDelete nodestore freestore ident"

fun runAll ::
  "(string \<Rightarrow> byte list) \<Rightarrow> File \<Rightarrow> File \<Rightarrow> command list \<Rightarrow> error option list \<times> File \<times> File" where
  "runAll marshal nodestore freestore [] = ([], nodestore, freestore)"
| "runAll marshal nodestore freestore (c # cs) =
     (case runCommand marshal nodestore freestore c of
        (err, nodestore', freestore') \<Rightarrow>
          (case runAll marshal nodestore' freestore' cs of
             (errs, nodestore'', freestore'') \<Rightarrow> (err # errs, nodestore'', freestore'')))"

text \<open>
  \<open>json.Marshal\<close> on a string made only of characters that it copies unchanged (letters
  and digits among them): the bytes of the string between two double quotes. The concrete
  runs below use such strings only, and \<open>jsonPlain\<close> stands for \<open>json.Marshal\<close> there.
\<close>

definition jsonPlain :: "string \<Rightarrow> byte list" where
  "jsonPlain s = 34 # map of_char s @ [34]"

section \<open>Opening, creating and closing a store\<close>

text \<open>
  The directory the program runs in: a path is absent, a regular file or a directory.
  \<open>OpenFile fs path create\<close> is \<open>os.OpenFile(path, os.O_RDWR, 0644)\<close>, with
  \<open>os.O_CREATE\<close> added when \<open>create\<close> holds. The handle it returns is named by the path
  it is opened on.
\<close>

datatype entry = Regular "byte list" | Directory

type_synonym filesystem = "string \<rightharpoonup> entry"

definition OpenFile :: "filesystem \<Rightarrow> string \<Rightarrow> bool \<Rightarrow> (error + string) \<times> filesystem" where
  "OpenFile fs path create =
     (case fs path of
        Some (Regular bs) \<Rightarrow> (Inr path, fs)
      | Some Directory \<Rightarrow> (Inl ErrIsDir, fs)
      | None \<Rightarrow> if create then (Inr path, fs(path \<mapsto> Regular [])) else (Inl ErrNotExist, fs))"

definition openStore :: "filesystem \<Rightarrow> string \<Rightarrow> error + (string \<times> string)" where
  "openStore fs name =
     (case OpenFile fs (name @ ''.db'') False of
        (Inl err, fs1) \<Rightarrow> Inl (Errorf (''file '' @ name @ '' does not exist''))
      | (Inr nodestore, fs1) \<Rightarrow>
         (case OpenFile fs1 (name @ ''_free.db'') False of
            (Inl err, fs2) \<Rightarrow> Inl (Errorf (''file '' @ name @ ''_free does not exist''))
          | (Inr freestore, fs2) \<Rightarrow> Inr (nodestore, freestore)))"

definition createStore :: "filesystem \<Rightarrow> string \<Rightarrow> (error + (string \<times> string)) \<times> filesystem" where
  "createStore fs name =
     (case OpenFile fs (name @ ''.db'') True of
        (Inl err, fs1) \<Rightarrow> (Inl (Errorf (''failed to create file '' @ name)), fs1)
      | (Inr nodestore, fs1) \<Rightarrow>
         (case OpenFile fs1 (name @ ''_free.db'') True of
            (Inl err, fs2) \<Rightarrow>
              (Inl (Errorf (''failed to create file '' @ (name @ ''_free'') @ ''_free'')), fs2)
          | (Inr freestore, fs2) \<Rightarrow> (Inr (nodestore, freestore), fs2)))"

definition comCreate :: "filesystem \<Rightarrow> string \<Rightarrow> (error + (string \<times> string)) \<times> filesystem" where
  "comCreate fs storename =
     (case createStore fs storename of
        (Inl err, fs') \<Rightarrow> (Inl err, fs')
      | (Inr (nodestore, freestore), fs') \<Rightarrow> (Inr (nodestore, freestore), fs'))"

definition comOpen :: "filesystem \<Rightarrow> string \<Rightarrow> error + (string \<times> string)" where
  "comOpen fs storename =
     (case openStore fs storename of
        Inl err \<Rightarrow> Inl err
      | Inr (nodestore, freestore) \<Rightarrow> Inr (nodestore, freestore))"

text \<open>
  \<open>comClose\<close> opens two handles of its own and closes them; closing a handle that was
  just opened returns no error. The result names the two paths it opened and closed.
\<close>

definition comClose :: "filesystem \<Rightarrow> string \<Rightarrow> error + (string \<times> string)" where
  "comClose fs storename =
     (case OpenFile fs storename False of
        (Inl err, fs1) \<Rightarrow> Inl (Errorf (''file '' @ storename @ '' does not exist''))
      | (Inr nodestore, fs1) \<Rightarrow>
         (case OpenFile fs1 (storename @ ''_free'') False of
            (Inl err, fs2) \<Rightarrow>
              Inl (Errorf (''file '' @ (storename @ ''_free'') @ ''_free does not exist''))
          | (Inr freestore, fs2) \<Rightarrow> Inr (nodestore, freestore)))"

section \<open>The slot layout in the words of the specification\<close>

text \<open>
  The specification's \<open>encode\<close>: id (4 bytes), in_use (1 byte), 2 padding bytes (zero),
  payload (64 bytes), in that order. It is compared with \<open>serializeNode\<close> below.
\<close>

definition spec_encode :: "Node \<Rightarrow> byte list" where
  "spec_encode r = PutUint32 (replicate 4 0) (ID r) @ [InUse r] @ [0, 0] @ Value r"

section \<open>Vocabulary of the statements\<close>

text \<open>
  The node that \<open>deleteNode\<close> builds for the identifier \<open>ident\<close> when the head of the
  free list is \<open>head\<close>, and the node that \<open>writeNode\<close> builds for the identifier
  \<open>ident\<close> and the encoded value \<open>jsonVal\<close>.
\<close>

definition freeNode :: "uint32 \<Rightarrow> uint32 \<Rightarrow> Node" where
  "freeNode ident head =
     \<lparr>ID = ident, Type = 0, InUse = 0, Value = PutUint32 (replicate 64 0) head\<rparr>"

definition usedNode :: "uint32 \<Rightarrow> byte list \<Rightarrow> Node" where
  "usedNode ident jsonVal =
     \<lparr>ID = ident, Type = 0, InUse = 1, Value = copy (replicate 64 0) jsonVal\<rparr>"

text \<open>The bytes of slot \<open>i\<close> of a node file: \<open>nodeSize\<close> bytes from offset \<open>i * nodeSize\<close>.\<close>

definition slot :: "File \<Rightarrow> nat \<Rightarrow> byte list" where
  "slot f i = take nodeSize (drop (i * nodeSize) (contents f))"

section \<open>Bytes and the slot codec\<close>

lemma Uint32_PutUint32: "Uint32 (PutUint32 b v) = v"
  unfolding PutUint32_def
  apply simp
  apply (rule bit_word_eqI)
  apply (auto simp: bit_simps)
  subgoal for n by (cases "24 \<le> n") auto
  done

lemma copy_same_length: "length src = length dst \<Longrightarrow> copy dst src = src"
  by (simp add: copy_def)

lemma serializeNode_layout:
  "length (Value n) = 64 \<Longrightarrow>
   serializeNode n = take 4 (PutUint32 (replicate 4 0) (ID n)) @ [InUse n] @ [0, 0, 0] @ Value n"
  by (simp add: serializeNode_def nodeSize_def PutUint32_def copy_def Let_def numeral_eq_Suc)

lemma length_serializeNode: "length (serializeNode n) = 72"
  by (simp add: serializeNode_def nodeSize_def PutUint32_def copy_def Let_def)

lemma Uint32_take4_PutUint32: "Uint32 (take 4 (PutUint32 b v)) = v"
  using Uint32_PutUint32 [of "[]" v] by (simp add: PutUint32_def)

lemma length_take4_PutUint32: "length (take 4 (PutUint32 b v)) = 4"
  by (simp add: PutUint32_def)

lemma serializeNode_parts:
  assumes "length (Value n) = 64"
  shows "Uint32 (take 4 (serializeNode n)) = ID n"
    and "serializeNode n ! 4 = InUse n"
    and "drop 8 (take 72 (serializeNode n)) = Value n"
    and "drop 8 (serializeNode n) = Value n"
proof -
  let ?h = "take 4 (PutUint32 (replicate 4 0) (ID n))"
  have len: "length ?h = 4" by (rule length_take4_PutUint32)
  have lay: "serializeNode n = ?h @ [InUse n] @ [0, 0, 0] @ Value n"
    using assms by (rule serializeNode_layout)
  show "Uint32 (take 4 (serializeNode n)) = ID n"
    using len by (simp add: lay Uint32_take4_PutUint32)
  show "serializeNode n ! 4 = InUse n"
    using len by (simp add: lay nth_append)
  show "drop 8 (take 72 (serializeNode n)) = Value n"
    using len assms by (simp add: lay)
  show "drop 8 (serializeNode n) = Value n"
    using len assms by (simp add: lay)
qed

lemma decode_serialize:
  assumes "length (Value n) = 64"
  shows "decodeNode (serializeNode n) = n\<lparr>Type := 0\<rparr>"
  using assms
  by (simp add: decodeNode_def zeroNode_def Let_def serializeNode_parts copy_same_length)

section \<open>Positioned reads and writes\<close>

lemma closed_WriteAt: "closed (snd (WriteAt f buf off)) = closed f"
  by (simp add: WriteAt_def)

lemma length_WriteAt:
  "\<not> closed f \<Longrightarrow>
   length (contents (snd (WriteAt f buf off))) = max (length (contents f)) (off + length buf)"
  by (simp add: WriteAt_def)

lemma ReadAt_WriteAt_same:
  "\<not> closed f \<Longrightarrow> ReadAt (snd (WriteAt f buf off)) (length buf) off = Inr buf"
  by (simp add: ReadAt_def WriteAt_def)

lemma ReadAt_WriteAt_before:
  assumes "\<not> closed f" and "off' + n \<le> length (contents f)" and "off' + n \<le> off"
  shows "ReadAt (snd (WriteAt f buf off)) n off' = ReadAt f n off'"
  using assms by (auto simp: ReadAt_def WriteAt_def min_def drop_take)

lemma ReadAt_WriteAt_after:
  assumes "\<not> closed f" and "off' + n \<le> length (contents f)" and "off + length buf \<le> off'"
  shows "ReadAt (snd (WriteAt f buf off)) n off' = ReadAt f n off'"
proof (cases "length (contents f) \<le> off")
  case True
  with assms have "length buf = 0" and "n = 0" and "off' = off"
    by linarith+
  with assms True show ?thesis
    by (simp add: ReadAt_def WriteAt_def)
next
  case False
  with assms show ?thesis
    by (simp add: ReadAt_def WriteAt_def min_def)
qed

section \<open>The head of the free list\<close>

lemma closed_setFree: "closed (snd (setFree f v)) = closed f"
  by (simp add: setFree_def WriteAt_def)

lemma getFree_setFree: "\<not> closed f \<Longrightarrow> getFree (snd (setFree f v)) = Inr v"
  using Uint32_PutUint32 [of "[]" v]
  by (simp add: getFree_def setFree_def ReadAt_def WriteAt_def PutUint32_def)

lemma getFree_total: "getFree f = Inr (if closed f \<or> length (contents f) < 4 then NOT 0 else Uint32 (take 4 (contents f)))"
  by (simp add: getFree_def ReadAt_def)

section \<open>Insert, delete and read on open files\<close>

lemma length_freeNode: "length (Value (freeNode k h)) = 64"
  by (simp add: freeNode_def PutUint32_def)

lemma length_usedNode: "length (Value (usedNode k j)) = 64"
  by (simp add: usedNode_def copy_def)

lemma deleteNode_open:
  assumes "\<not> closed ns" and "\<not> closed fs" and "getFree fs = Inr h"
  shows "deleteNode ns fs k =
           (None, snd (WriteAt ns (serializeNode (freeNode k h)) (unat k * nodeSize)),
                  snd (setFree fs k))"
  using assms
  by (simp add: deleteNode_def Let_def freeNode_def zeroNode_def WriteAt_def setFree_def)

lemma writeNode_reuse:
  assumes "\<not> closed ns" and "\<not> closed fs" and "getFree fs = Inr h" and "h \<noteq> NOT 0"
    and "ReadAt ns nodeSize (unat h * nodeSize) = Inr buf"
  shows "writeNode m ns fs v =
           (None, snd (WriteAt ns (serializeNode (usedNode h (m v))) (unat h * nodeSize)),
                  snd (setFree fs (Uint32 (take 4 (drop 8 buf)))))"
  using assms
  by (simp add: writeNode_def Let_def usedNode_def zeroNode_def WriteAt_def setFree_def)

lemma writeNode_append:
  assumes "\<not> closed ns" and "getFree fs = Inr (NOT 0)"
  shows "writeNode m ns fs v =
           (None, snd (WriteAt ns (serializeNode (usedNode (word_of_nat (length (contents ns) div nodeSize)) (m v)))
                          (length (contents ns))), fs)"
  using assms
  by (simp add: writeNode_def Let_def usedNode_def zeroNode_def WriteAt_def Stat_Size_def)

lemma readNode_WriteAt_same:
  assumes "\<not> closed f" and "length (Value n) = 64"
  shows "readNode (snd (WriteAt f (serializeNode n) (unat k * nodeSize))) k = Inr (n\<lparr>Type := 0\<rparr>)"
  using assms ReadAt_WriteAt_same [of f "serializeNode n" "unat k * nodeSize"]
  by (simp add: readNode_def Let_def length_serializeNode nodeSize_def decode_serialize)

lemma ReadAt_slot_WriteAt_other:
  assumes "\<not> closed f" and "i \<noteq> k" and "i * nodeSize + nodeSize \<le> length (contents f)"
    and "length buf = nodeSize"
  shows "ReadAt (snd (WriteAt f buf (k * nodeSize))) nodeSize (i * nodeSize) = ReadAt f nodeSize (i * nodeSize)"
proof (cases "i < k")
  case True
  then have "i * nodeSize + nodeSize \<le> k * nodeSize"
    by (metis Suc_leI mult_Suc mult_le_mono1 add.commute)
  with assms show ?thesis by (intro ReadAt_WriteAt_before)
next
  case False
  with assms have "k < i" by simp
  then have "k * nodeSize + nodeSize \<le> i * nodeSize"
    by (metis Suc_leI mult_Suc mult_le_mono1 add.commute)
  with assms show ?thesis by (intro ReadAt_WriteAt_after) simp_all
qed

lemma readNode_WriteAt_other:
  assumes "\<not> closed f" and "j \<noteq> k" and "unat j * nodeSize + nodeSize \<le> length (contents f)"
    and "length buf = nodeSize"
  shows "readNode (snd (WriteAt f buf (unat k * nodeSize))) j = readNode f j"
proof -
  from assms(2) have "unat j \<noteq> unat k" by (simp add: word_unat_eq_iff)
  with assms show ?thesis
    by (simp add: readNode_def Let_def ReadAt_slot_WriteAt_other)
qed

lemma link_of_freeNode: "Uint32 (take 4 (drop 8 (serializeNode (freeNode k h)))) = h"
  by (simp add: serializeNode_parts(4) length_freeNode)
     (simp add: freeNode_def Uint32_take4_PutUint32)

lemma usedNode_Type: "usedNode k j\<lparr>Type := 0\<rparr> = usedNode k j"
  by (simp add: usedNode_def)

lemma freeNode_Type: "freeNode k h\<lparr>Type := 0\<rparr> = freeNode k h"
  by (simp add: freeNode_def)

lemma length_serializeNode': "length (serializeNode n) = nodeSize"
  by (simp add: length_serializeNode nodeSize_def)

lemma Value_usedNode: "Value (usedNode i j) = take 64 j @ replicate (64 - length j) 0"
  by (simp add: usedNode_def copy_def)

lemma decode_serialize_usedNode: "decodeNode (serializeNode (usedNode i j)) = usedNode i j"
  by (simp add: decode_serialize length_usedNode usedNode_Type)

lemma decode_serialize_freeNode: "decodeNode (serializeNode (freeNode i h)) = freeNode i h"
  by (simp add: decode_serialize length_freeNode freeNode_Type)

lemma readNode_after_deleteNode:
  assumes "\<not> closed ns" and "\<not> closed fs" and "getFree fs = Inr h"
  shows "readNode (fst (snd (deleteNode ns fs k))) k = Inr (freeNode k h)"
  using assms readNode_WriteAt_same [OF assms(1) length_freeNode, of k h k]
  by (simp add: deleteNode_open freeNode_Type)

lemma readNode_after_writeNode_reuse:
  assumes "\<not> closed ns" and "\<not> closed fs" and "getFree fs = Inr h" and "h \<noteq> NOT 0"
    and "ReadAt ns nodeSize (unat h * nodeSize) = Inr buf"
  shows "readNode (fst (snd (writeNode m ns fs v))) h = Inr (usedNode h (m v))"
  using readNode_WriteAt_same [OF assms(1) length_usedNode, of h "m v" h]
  by (simp add: writeNode_reuse [OF assms] usedNode_Type)

lemma readNode_after_writeNode_append:
  assumes "\<not> closed ns" and "getFree fs = Inr (NOT 0)"
    and "length (contents ns) = unat k * nodeSize"
  shows "readNode (fst (snd (writeNode m ns fs v))) k = Inr (usedNode k (m v))"
  using readNode_WriteAt_same [OF assms(1) length_usedNode, of k "m v" k] assms(3)
  by (simp add: writeNode_append [OF assms(1,2)] usedNode_Type nodeSize_def)

lemma WriteAt_at_end:
  "\<not> closed f \<Longrightarrow> WriteAt f buf (length (contents f)) = (None, f\<lparr>contents := contents f @ buf\<rparr>)"
  by (simp add: WriteAt_def)

lemma writeNode_append_contents:
  assumes "\<not> closed ns" and "getFree fs = Inr (NOT 0)"
  shows "writeNode m ns fs v =
           (None, ns\<lparr>contents := contents ns
                    @ serializeNode (usedNode (word_of_nat (length (contents ns) div nodeSize)) (m v))\<rparr>, fs)"
  using assms by (simp add: writeNode_append WriteAt_at_end)

lemma getFree_empty: "getFree \<lparr>contents = [], closed = c\<rparr> = Inr (NOT 0)"
  by (simp add: getFree_def ReadAt_def)

lemma ReadAt_slot:
  "ReadAt f nodeSize (i * nodeSize) = Inr buf \<Longrightarrow> buf = slot f i"
  by (auto simp: ReadAt_def slot_def split: if_splits)

lemma length_WriteAt_inside:
  assumes "\<not> closed f" and "off + length buf \<le> length (contents f)"
  shows "length (contents (snd (WriteAt f buf off))) = length (contents f)"
  using assms by (simp add: length_WriteAt)

lemma writeNode_reuse_read_fails:
  assumes "getFree fs = Inr h" and "h \<noteq> NOT 0"
    and "ReadAt ns nodeSize (unat h * nodeSize) = Inl e"
  shows "writeNode m ns fs v = (Some e, ns, fs)"
  using assms by (simp add: writeNode_def Let_def)

lemma readNode_WriteAt_same_length:
  assumes "\<not> closed f" and "length buf = nodeSize"
    and "unat k * nodeSize + nodeSize \<le> length (contents f)" and "j \<noteq> k"
  shows "readNode (snd (WriteAt f buf (unat k * nodeSize))) j = readNode f j"
proof (cases "unat j * nodeSize + nodeSize \<le> length (contents f)")
  case True
  with assms show ?thesis by (simp add: readNode_WriteAt_other)
next
  case False
  have "length (contents (snd (WriteAt f buf (unat k * nodeSize)))) = length (contents f)"
    using assms by (simp add: length_WriteAt_inside)
  with False assms(1) show ?thesis
    by (simp add: readNode_def ReadAt_def Let_def closed_WriteAt)
qed

section \<open>The scan loop and the slots of a file\<close>

lemma ReadAt_slot_iff:
  "ReadAt f nodeSize (i * nodeSize) =
     (if closed f then Inl ErrClosed
      else if i < length (contents f) div nodeSize then Inr (slot f i) else Inl EOF)"
proof -
  have "(i * nodeSize + nodeSize \<le> length (contents f)) = (i < length (contents f) div nodeSize)"
    by (simp add: nodeSize_def) arith
  then show ?thesis
    by (simp add: ReadAt_def slot_def)
qed

lemma readStore_loop_closed: "closed f \<Longrightarrow> readStore_loop f i acc = acc"
  by (subst readStore_loop.simps) (simp add: ReadAt_def)

lemma readStore_loop_open:
  "\<not> closed f \<Longrightarrow>
   readStore_loop f i acc =
     acc @ map (\<lambda>j. decodeNode (slot f j)) [i ..< length (contents f) div nodeSize]"
proof (induction f i acc rule: readStore_loop.induct)
  case (1 f i nodes)
  show ?case
  proof (cases "i < length (contents f) div nodeSize")
    case True
    with "1.prems" have r: "ReadAt f nodeSize (i * nodeSize) = Inr (slot f i)"
      by (simp add: ReadAt_slot_iff)
    have "readStore_loop f i nodes = readStore_loop f (i + 1) (nodes @ [decodeNode (slot f i)])"
      by (subst readStore_loop.simps) (simp add: r)
    also have "\<dots> = (nodes @ [decodeNode (slot f i)])
                 @ map (\<lambda>j. decodeNode (slot f j)) [i + 1 ..< length (contents f) div nodeSize]"
      using "1.IH" [OF r "1.prems"] .
    also have "\<dots> = nodes @ map (\<lambda>j. decodeNode (slot f j)) [i ..< length (contents f) div nodeSize]"
      using True by (simp add: upt_conv_Cons)
    finally show ?thesis .
  next
    case False
    with "1.prems" have r: "ReadAt f nodeSize (i * nodeSize) = Inl EOF"
      by (simp add: ReadAt_slot_iff)
    have "readStore_loop f i nodes = nodes"
      by (subst readStore_loop.simps) (simp add: r)
    with False show ?thesis by simp
  qed
qed

lemma readStore_eq:
  "readStore f =
     Inr (if closed f then []
          else map (\<lambda>i. decodeNode (slot f i)) [0 ..< length (contents f) div nodeSize])"
proof (cases "closed f")
  case True
  then show ?thesis by (simp add: readStore_def readStore_loop_closed)
next
  case False
  then show ?thesis by (simp add: readStore_def readStore_loop_open)
qed

lemma slot_WriteAt:
  assumes "\<not> closed f" and "length buf = nodeSize"
    and "k * nodeSize + nodeSize \<le> length (contents f)"
    and "i < length (contents f) div nodeSize"
  shows "slot (snd (WriteAt f buf (k * nodeSize))) i = (if i = k then buf else slot f i)"
proof -
  let ?f' = "snd (WriteAt f buf (k * nodeSize))"
  have c: "\<not> closed ?f'"
    using assms(1) by (simp add: closed_WriteAt)
  have l: "length (contents ?f') = length (contents f)"
    using assms(1-3) by (simp add: length_WriteAt_inside)
  have r': "ReadAt ?f' nodeSize (i * nodeSize) = Inr (slot ?f' i)"
    using c assms(4) by (simp add: ReadAt_slot_iff l)
  have r: "ReadAt f nodeSize (i * nodeSize) = Inr (slot f i)"
    using assms(1,4) by (simp add: ReadAt_slot_iff)
  have inr: "i * nodeSize + nodeSize \<le> length (contents f)"
    using r by (auto simp: ReadAt_def split: if_splits)
  show ?thesis
  proof (cases "i = k")
    case True
    have "ReadAt ?f' nodeSize (k * nodeSize) = Inr buf"
      using ReadAt_WriteAt_same [OF assms(1), of buf "k * nodeSize"] by (simp add: assms(2))
    with r' True show ?thesis by simp
  next
    case False
    have "ReadAt ?f' nodeSize (i * nodeSize) = ReadAt f nodeSize (i * nodeSize)"
      using assms(1) False inr assms(2) by (rule ReadAt_slot_WriteAt_other)
    with r r' False show ?thesis by simp
  qed
qed

lemma readStore_WriteAt:
  assumes "\<not> closed f" and "length buf = nodeSize"
    and "k * nodeSize + nodeSize \<le> length (contents f)"
    and "readStore f = Inr nodes"
  shows "readStore (snd (WriteAt f buf (k * nodeSize))) = Inr (nodes[k := decodeNode buf])"
proof -
  let ?f' = "snd (WriteAt f buf (k * nodeSize))"
  let ?N = "length (contents f) div nodeSize"
  have c: "\<not> closed ?f'"
    using assms(1) by (simp add: closed_WriteAt)
  have l: "length (contents ?f') = length (contents f)"
    using assms(1-3) by (simp add: length_WriteAt_inside)
  have n: "nodes = map (\<lambda>i. decodeNode (slot f i)) [0 ..< ?N]"
    using assms(1,4) by (simp add: readStore_eq)
  have "map (\<lambda>i. decodeNode (slot ?f' i)) [0 ..< ?N] = nodes[k := decodeNode buf]"
  proof (rule nth_equalityI)
    show "length (map (\<lambda>i. decodeNode (slot ?f' i)) [0 ..< ?N]) = length (nodes[k := decodeNode buf])"
      by (simp add: n)
  next
    fix i
    assume "i < length (map (\<lambda>i. decodeNode (slot ?f' i)) [0 ..< ?N])"
    then have i: "i < ?N" by simp
    have "slot ?f' i = (if i = k then buf else slot f i)"
      using assms(1-3) i by (rule slot_WriteAt)
    with i show "map (\<lambda>i. decodeNode (slot ?f' i)) [0 ..< ?N] ! i = nodes[k := decodeNode buf] ! i"
      by (simp add: n nth_list_update)
  qed
  with c show ?thesis
    by (simp add: readStore_eq l)
qed

lemma readNode_Inr:
  assumes "readNode f k = Inr n"
  shows "\<not> closed f" and "unat k * nodeSize + nodeSize \<le> length (contents f)"
    and "n = decodeNode (slot f (unat k))" and "unat k < length (contents f) div nodeSize"
proof -
  from assms obtain buf where r: "ReadAt f nodeSize (unat k * nodeSize) = Inr buf"
    and n: "n = decodeNode buf"
    by (auto simp: readNode_def Let_def split: sum.splits)
  from r show "\<not> closed f" and "unat k * nodeSize + nodeSize \<le> length (contents f)"
    by (auto simp: ReadAt_def split: if_splits)
  from r have "buf = slot f (unat k)" by (rule ReadAt_slot)
  with n show "n = decodeNode (slot f (unat k))" by simp
  from r show "unat k < length (contents f) div nodeSize"
    by (auto simp: ReadAt_slot_iff split: if_splits)
qed

lemma filter_update_dropped:
  assumes "k < length xs" and "\<not> P y"
  shows "filter P (xs[k := y]) = filter P (take k xs @ drop (Suc k) xs)"
  using assms by (simp add: upd_conv_take_nth_drop)

lemma in_set_take_drop:
  assumes "x \<in> set (take k xs @ drop (Suc k) xs)"
  shows "\<exists>i. i < length xs \<and> i \<noteq> k \<and> x = xs ! i"
proof -
  from assms consider "x \<in> set (take k xs)" | "x \<in> set (drop (Suc k) xs)" by auto
  then show ?thesis
  proof cases
    case 1
    then obtain i where "i < length (take k xs)" and "take k xs ! i = x"
      by (auto simp: in_set_conv_nth)
    then have "i < length xs \<and> i \<noteq> k \<and> x = xs ! i" by simp
    then show ?thesis by blast
  next
    case 2
    then obtain i where i: "i < length (drop (Suc k) xs)" and x: "drop (Suc k) xs ! i = x"
      by (auto simp: in_set_conv_nth)
    from i have "Suc k + i < length xs" by simp
    moreover from i x have "x = xs ! (Suc k + i)" by simp
    ultimately have "Suc k + i < length xs \<and> Suc k + i \<noteq> k \<and> x = xs ! (Suc k + i)" by simp
    then show ?thesis by blast
  qed
qed

section \<open>Runs of commands\<close>

lemma comInsert_eq: "comInsert m ns fs v = writeNode m ns fs v"
  by (simp add: comInsert_def split: prod.splits option.splits)

lemma comDelete_eq: "comDelete ns fs k = deleteNode ns fs k"
  by (simp add: comDelete_def split: prod.splits option.splits)

lemma runAll_inserts_append:
  assumes "\<not> closed ns" and "getFree fs = Inr (NOT 0)"
  shows "runAll m ns fs (map Insert vs) =
           (replicate (length vs) None,
            ns\<lparr>contents := contents ns
                 @ concat (map (\<lambda>(i, v). serializeNode (usedNode (word_of_nat i) (m v)))
                             (enumerate (length (contents ns) div nodeSize) vs))\<rparr>,
            fs)"
  using assms(1)
proof (induction vs arbitrary: ns)
  case Nil
  then show ?case by simp
next
  case (Cons v vs)
  let ?s = "serializeNode (usedNode (word_of_nat (length (contents ns) div nodeSize)) (m v))"
  let ?ns1 = "ns\<lparr>contents := contents ns @ ?s\<rparr>"
  have w: "writeNode m ns fs v = (None, ?ns1, fs)"
    using Cons.prems assms(2) by (rule writeNode_append_contents)
  have c1: "\<not> closed ?ns1"
    using Cons.prems by simp
  have n1: "length (contents ?ns1) div nodeSize = Suc (length (contents ns) div nodeSize)"
    by (simp add: length_serializeNode nodeSize_def)
  note ih = Cons.IH [OF c1, unfolded n1]
  show ?case
    by (simp add: comInsert_eq w ih)
qed

section \<open>Two deletions of one ID\<close>

lemma link_of_usedNode:
  "Uint32 (take 4 (drop 8 (serializeNode (usedNode k j)))) = Uint32 (take 4 (Value (usedNode k j)))"
  by (simp add: serializeNode_parts(4) length_usedNode)

lemma ReadAt_after_write_slot:
  assumes "\<not> closed f"
  shows "ReadAt (snd (WriteAt f (serializeNode n) off)) nodeSize off = Inr (serializeNode n)"
  using ReadAt_WriteAt_same [OF assms, of "serializeNode n" off] by (simp add: length_serializeNode')

lemma double_delete_then_two_inserts:
  assumes ons: "\<not> closed ns" and ofs: "\<not> closed fs" and hd: "getFree fs = Inr h"
  shows "case deleteNode ns fs k of (e1, ns1, fs1) \<Rightarrow>
         case deleteNode ns1 fs1 k of (e2, ns2, fs2) \<Rightarrow>
           e1 = None \<and> e2 = None
           \<and> ns1 = snd (WriteAt ns (serializeNode (freeNode k h)) (unat k * nodeSize))
           \<and> ns2 = snd (WriteAt ns1 (serializeNode (freeNode k k)) (unat k * nodeSize))
           \<and> getFree fs2 = Inr k
           \<and> readNode ns2 k = Inr (freeNode k k)
           \<and> Uint32 (take 4 (Value (freeNode k k))) = k
           \<and> (k \<noteq> NOT 0 \<longrightarrow>
                (case writeNode m ns2 fs2 v1 of (e3, ns3, fs3) \<Rightarrow>
                 case writeNode m ns3 fs3 v2 of (e4, ns4, fs4) \<Rightarrow>
                   e3 = None
                   \<and> readNode ns3 k = Inr (usedNode k (m v1))
                   \<and> getFree fs3 = Inr k
                   \<and> e4 = None
                   \<and> readNode ns4 k = Inr (usedNode k (m v2))
                   \<and> getFree fs4 = Inr (Uint32 (take 4 (Value (usedNode k (m v1)))))))"
proof -
  let ?off = "unat k * nodeSize"
  define ns1 where "ns1 = snd (WriteAt ns (serializeNode (freeNode k h)) ?off)"
  define fs1 where "fs1 = snd (setFree fs k)"
  have d1: "deleteNode ns fs k = (None, ns1, fs1)"
    using deleteNode_open [OF ons ofs hd, of k] by (simp add: ns1_def fs1_def)
  have ons1: "\<not> closed ns1" and ofs1: "\<not> closed fs1"
    using ons ofs by (simp_all add: ns1_def fs1_def closed_WriteAt closed_setFree)
  have g1: "getFree fs1 = Inr k"
    by (simp add: fs1_def getFree_setFree ofs)
  define ns2 where "ns2 = snd (WriteAt ns1 (serializeNode (freeNode k k)) ?off)"
  define fs2 where "fs2 = snd (setFree fs1 k)"
  have d2: "deleteNode ns1 fs1 k = (None, ns2, fs2)"
    using deleteNode_open [OF ons1 ofs1 g1, of k] by (simp add: ns2_def fs2_def)
  have ons2: "\<not> closed ns2" and ofs2: "\<not> closed fs2"
    using ons1 ofs1 by (simp_all add: ns2_def fs2_def closed_WriteAt closed_setFree)
  have g2: "getFree fs2 = Inr k"
    by (simp add: fs2_def getFree_setFree ofs1)
  have n2: "readNode ns2 k = Inr (freeNode k k)"
    using readNode_WriteAt_same [OF ons1 length_freeNode, of k k k]
    by (simp add: ns2_def freeNode_Type)
  have lk: "Uint32 (take 4 (Value (freeNode k k))) = k"
    by (simp add: freeNode_def Uint32_take4_PutUint32)
  have ins: "case writeNode m ns2 fs2 v1 of (e3, ns3, fs3) \<Rightarrow>
             case writeNode m ns3 fs3 v2 of (e4, ns4, fs4) \<Rightarrow>
               e3 = None
               \<and> readNode ns3 k = Inr (usedNode k (m v1))
               \<and> getFree fs3 = Inr k
               \<and> e4 = None
               \<and> readNode ns4 k = Inr (usedNode k (m v2))
               \<and> getFree fs4 = Inr (Uint32 (take 4 (Value (usedNode k (m v1)))))"
    if ne: "k \<noteq> NOT 0"
  proof -
    have r2: "ReadAt ns2 nodeSize ?off = Inr (serializeNode (freeNode k k))"
      unfolding ns2_def using ons1 by (rule ReadAt_after_write_slot)
    define ns3 where "ns3 = snd (WriteAt ns2 (serializeNode (usedNode k (m v1))) ?off)"
    define fs3 where "fs3 = snd (setFree fs2 k)"
    have w3: "writeNode m ns2 fs2 v1 = (None, ns3, fs3)"
      using writeNode_reuse [OF ons2 ofs2 g2 ne r2, of m v1]
      by (simp add: ns3_def fs3_def link_of_freeNode)
    have ons3: "\<not> closed ns3" and ofs3: "\<not> closed fs3"
      using ons2 ofs2 by (simp_all add: ns3_def fs3_def closed_WriteAt closed_setFree)
    have g3: "getFree fs3 = Inr k"
      by (simp add: fs3_def getFree_setFree ofs2)
    have n3: "readNode ns3 k = Inr (usedNode k (m v1))"
      using readNode_WriteAt_same [OF ons2 length_usedNode, of k "m v1" k]
      by (simp add: ns3_def usedNode_Type)
    have r3: "ReadAt ns3 nodeSize ?off = Inr (serializeNode (usedNode k (m v1)))"
      unfolding ns3_def using ons2 by (rule ReadAt_after_write_slot)
    define ns4 where "ns4 = snd (WriteAt ns3 (serializeNode (usedNode k (m v2))) ?off)"
    define fs4 where "fs4 = snd (setFree fs3 (Uint32 (take 4 (Value (usedNode k (m v1))))))"
    have w4: "writeNode m ns3 fs3 v2 = (None, ns4, fs4)"
      using writeNode_reuse [OF ons3 ofs3 g3 ne r3, of m v2]
      by (simp add: ns4_def fs4_def link_of_usedNode)
    have g4: "getFree fs4 = Inr (Uint32 (take 4 (Value (usedNode k (m v1)))))"
      by (simp add: fs4_def getFree_setFree ofs3)
    have n4: "readNode ns4 k = Inr (usedNode k (m v2))"
      using readNode_WriteAt_same [OF ons3 length_usedNode, of k "m v2" k]
      by (simp add: ns4_def usedNode_Type)
    show ?thesis
      unfolding w3 w4 prod.case using g3 n3 g4 n4 by blast
  qed
  show ?thesis
    unfolding d1 d2 prod.case using g2 n2 lk ins by (simp add: ns1_def ns2_def)
qed

section \<open>A store of one slot\<close>

lemma WriteAt_whole:
  "\<not> closed f \<Longrightarrow> length buf = length (contents f) \<Longrightarrow> WriteAt f buf 0 = (None, f\<lparr>contents := buf\<rparr>)"
  by (simp add: WriteAt_def)

lemma setFree_small:
  "\<not> closed f \<Longrightarrow> length (contents f) \<le> 4 \<Longrightarrow>
   setFree f v = (None, f\<lparr>contents := PutUint32 (replicate 4 0) v\<rparr>)"
  by (simp add: setFree_def WriteAt_def PutUint32_def)

lemma deleteNode_single_slot:
  assumes "getFree fs = Inr h" and "\<not> closed fs" and "length (contents fs) \<le> 4"
  shows "deleteNode \<lparr>contents = serializeNode x, closed = False\<rparr> fs 0 =
           (None, \<lparr>contents = serializeNode (freeNode 0 h), closed = False\<rparr>,
            fs\<lparr>contents := PutUint32 (replicate 4 0) 0\<rparr>)"
proof -
  let ?ns = "\<lparr>contents = serializeNode x, closed = False\<rparr>"
  have o: "\<not> closed ?ns" by simp
  show ?thesis
    using deleteNode_open [OF o assms(2,1), of 0] assms(2,3)
    by (simp add: WriteAt_whole setFree_small length_serializeNode)
qed

lemma writeNode_single_slot:
  assumes "getFree fs = Inr 0" and "\<not> closed fs" and "length (contents fs) \<le> 4"
  shows "writeNode m \<lparr>contents = serializeNode x, closed = False\<rparr> fs v =
           (None, \<lparr>contents = serializeNode (usedNode 0 (m v)), closed = False\<rparr>,
            fs\<lparr>contents := PutUint32 (replicate 4 0) (Uint32 (take 4 (drop 8 (serializeNode x))))\<rparr>)"
proof -
  let ?ns = "\<lparr>contents = serializeNode x, closed = False\<rparr>"
  have o: "\<not> closed ?ns" by simp
  have ne: "(0 :: uint32) \<noteq> NOT 0" by simp
  have r: "ReadAt ?ns nodeSize (unat (0 :: uint32) * nodeSize) = Inr (serializeNode x)"
    by (simp add: ReadAt_def length_serializeNode')
  show ?thesis
    using writeNode_reuse [OF o assms(2,1) ne r, of m v] assms(2,3)
    by (simp add: WriteAt_whole setFree_small length_serializeNode)
qed

lemma getFree_Put: "getFree \<lparr>contents = PutUint32 (replicate 4 0) v, closed = False\<rparr> = Inr v"
  using Uint32_PutUint32 [of "replicate 4 0" v]
  by (simp add: getFree_def ReadAt_def) (simp add: PutUint32_def)

lemma link_b: "Uint32 (take 4 (Value (usedNode 0 (jsonPlain ''b'')))) = 2253346"
  by (simp add: Value_usedNode jsonPlain_def)

lemma Put_link_b: "PutUint32 (replicate 4 0) 2253346 = [34, 98, 34, 0]"
  by (simp add: PutUint32_def)

section \<open>C1: free slots are reused last in, first out\<close>

text \<open>
  Claim C1. On a store whose node file holds at least the slots 0 to 7 (so that slots 3
  and 7 exist) and whose free list is empty, deleting ID 3, then ID 7, then inserting
  twice returns no error, writes the first inserted record with ID 7 into slot 7 and the
  second with ID 3 into slot 3; the head of the free list is 3, 7, 3 and the sentinel
  after the four steps, and the node file keeps its length (nothing is appended). The
  theorem does not need the two slots to be occupied.
\<close>

theorem free_slot_reuse_is_LIFO:
  assumes ons: "\<not> closed ns" and ofs: "\<not> closed fs"
    and len: "8 * nodeSize \<le> length (contents ns)"
    and empty: "getFree fs = Inr (NOT 0)"
  shows "case deleteNode ns fs 3 of (e1, ns1, fs1) \<Rightarrow>
         case deleteNode ns1 fs1 7 of (e2, ns2, fs2) \<Rightarrow>
         case writeNode m ns2 fs2 v1 of (e3, ns3, fs3) \<Rightarrow>
         case writeNode m ns3 fs3 v2 of (e4, ns4, fs4) \<Rightarrow>
           e1 = None \<and> e2 = None \<and> e3 = None \<and> e4 = None
           \<and> ns3 = snd (WriteAt ns2 (serializeNode (usedNode 7 (m v1))) (7 * nodeSize))
           \<and> ns4 = snd (WriteAt ns3 (serializeNode (usedNode 3 (m v2))) (3 * nodeSize))
           \<and> readNode ns3 7 = Inr (usedNode 7 (m v1))
           \<and> readNode ns3 3 = Inr (freeNode 3 (NOT 0))
           \<and> readNode ns4 7 = Inr (usedNode 7 (m v1))
           \<and> readNode ns4 3 = Inr (usedNode 3 (m v2))
           \<and> getFree fs1 = Inr 3 \<and> getFree fs2 = Inr 7
           \<and> getFree fs3 = Inr 3 \<and> getFree fs4 = Inr (NOT 0)
           \<and> length (contents ns4) = length (contents ns)"
proof -
  have u3: "unat (3 :: uint32) = 3" and u7: "unat (7 :: uint32) = 7" by simp_all
  have l3: "3 * nodeSize + nodeSize \<le> length (contents ns)"
    and l7: "7 * nodeSize + nodeSize \<le> length (contents ns)"
    using len by (simp_all add: nodeSize_def)
  define ns1 where "ns1 = snd (WriteAt ns (serializeNode (freeNode 3 (NOT 0))) (3 * nodeSize))"
  define fs1 where "fs1 = snd (setFree fs 3)"
  have d1: "deleteNode ns fs 3 = (None, ns1, fs1)"
    using deleteNode_open [OF ons ofs empty, of 3] by (simp add: ns1_def fs1_def)
  have ons1: "\<not> closed ns1" and ofs1: "\<not> closed fs1"
    using ons ofs by (simp_all add: ns1_def fs1_def closed_WriteAt closed_setFree)
  have len1: "length (contents ns1) = length (contents ns)"
    using l3 by (simp add: ns1_def length_WriteAt ons length_serializeNode')
  have g1: "getFree fs1 = Inr 3"
    by (simp add: fs1_def getFree_setFree ofs)
  define ns2 where "ns2 = snd (WriteAt ns1 (serializeNode (freeNode 7 3)) (7 * nodeSize))"
  define fs2 where "fs2 = snd (setFree fs1 7)"
  have d2: "deleteNode ns1 fs1 7 = (None, ns2, fs2)"
    using deleteNode_open [OF ons1 ofs1 g1, of 7] by (simp add: ns2_def fs2_def)
  have ons2: "\<not> closed ns2" and ofs2: "\<not> closed fs2"
    using ons1 ofs1 by (simp_all add: ns2_def fs2_def closed_WriteAt closed_setFree)
  have len2: "length (contents ns2) = length (contents ns)"
    using l7 by (simp add: ns2_def length_WriteAt ons1 length_serializeNode' len1)
  have g2: "getFree fs2 = Inr 7"
    by (simp add: fs2_def getFree_setFree ofs1)
  have r2: "ReadAt ns2 nodeSize (unat (7 :: uint32) * nodeSize) = Inr (serializeNode (freeNode 7 3))"
    using ReadAt_WriteAt_same [OF ons1, of "serializeNode (freeNode 7 3)" "7 * nodeSize"]
    by (simp add: ns2_def length_serializeNode')
  define ns3 where "ns3 = snd (WriteAt ns2 (serializeNode (usedNode 7 (m v1))) (7 * nodeSize))"
  define fs3 where "fs3 = snd (setFree fs2 3)"
  have w3: "writeNode m ns2 fs2 v1 = (None, ns3, fs3)"
    using writeNode_reuse [OF ons2 ofs2 g2 _ r2, of m v1]
    by (simp add: ns3_def fs3_def link_of_freeNode)
  have ons3: "\<not> closed ns3" and ofs3: "\<not> closed fs3"
    using ons2 ofs2 by (simp_all add: ns3_def fs3_def closed_WriteAt closed_setFree)
  have len3: "length (contents ns3) = length (contents ns)"
    using l7 by (simp add: ns3_def length_WriteAt ons2 length_serializeNode' len2)
  have g3: "getFree fs3 = Inr 3"
    by (simp add: fs3_def getFree_setFree ofs2)
  have n1_3: "readNode ns1 3 = Inr (freeNode 3 (NOT 0))"
    using readNode_WriteAt_same [OF ons length_freeNode, of 3 "NOT 0" 3]
    by (simp add: ns1_def freeNode_Type)
  have n2_3: "readNode ns2 3 = Inr (freeNode 3 (NOT 0))"
    using readNode_WriteAt_other [of ns1 3 7 "serializeNode (freeNode 7 3)"] ons1 l3 n1_3
    by (simp add: ns2_def length_serializeNode' len1)
  have n3_3: "readNode ns3 3 = Inr (freeNode 3 (NOT 0))"
    using readNode_WriteAt_other [of ns2 3 7 "serializeNode (usedNode 7 (m v1))"] ons2 l3 n2_3
    by (simp add: ns3_def length_serializeNode' len2)
  have n3_7: "readNode ns3 7 = Inr (usedNode 7 (m v1))"
    using readNode_WriteAt_same [OF ons2 length_usedNode, of 7 "m v1" 7]
    by (simp add: ns3_def usedNode_Type)
  have r1: "ReadAt ns1 nodeSize (3 * nodeSize) = Inr (serializeNode (freeNode 3 (NOT 0)))"
    using ReadAt_WriteAt_same [OF ons, of "serializeNode (freeNode 3 (NOT 0))" "3 * nodeSize"]
    by (simp add: ns1_def length_serializeNode')
  have r2': "ReadAt ns2 nodeSize (3 * nodeSize) = Inr (serializeNode (freeNode 3 (NOT 0)))"
    using ReadAt_slot_WriteAt_other [of ns1 3 7 "serializeNode (freeNode 7 3)"] ons1 l3 r1
    by (simp add: ns2_def length_serializeNode' len1)
  have r3: "ReadAt ns3 nodeSize (unat (3 :: uint32) * nodeSize) = Inr (serializeNode (freeNode 3 (NOT 0)))"
    using ReadAt_slot_WriteAt_other [of ns2 3 7 "serializeNode (usedNode 7 (m v1))"] ons2 l3 r2'
    by (simp add: ns3_def length_serializeNode' len2)
  define ns4 where "ns4 = snd (WriteAt ns3 (serializeNode (usedNode 3 (m v2))) (3 * nodeSize))"
  define fs4 where "fs4 = snd (setFree fs3 (NOT 0))"
  have w4: "writeNode m ns3 fs3 v2 = (None, ns4, fs4)"
    using writeNode_reuse [OF ons3 ofs3 g3 _ r3, of m v2]
    by (simp add: ns4_def fs4_def link_of_freeNode)
  have len4: "length (contents ns4) = length (contents ns)"
    using l3 by (simp add: ns4_def length_WriteAt ons3 length_serializeNode' len3)
  have g4: "getFree fs4 = Inr (NOT 0)"
    by (simp add: fs4_def getFree_setFree ofs3)
  have n4_3: "readNode ns4 3 = Inr (usedNode 3 (m v2))"
    using readNode_WriteAt_same [OF ons3 length_usedNode, of 3 "m v2" 3]
    by (simp add: ns4_def usedNode_Type)
  have n4_7: "readNode ns4 7 = Inr (usedNode 7 (m v1))"
    using readNode_WriteAt_other [of ns3 7 3 "serializeNode (usedNode 3 (m v2))"] ons3 l7 n3_7
    by (simp add: ns4_def length_serializeNode' len3)
  show ?thesis
    unfolding d1 d2 w3 w4 prod.case
    using n3_7 n3_3 n4_7 n4_3 g1 g2 g3 g4 len4
    by (simp add: ns3_def ns4_def)
qed

theorem free_slot_reuse_is_LIFO_witness:
  "\<not> closed \<lparr>contents = concat (map (\<lambda>i. [i, 0, 0, 0, 1] @ replicate 67 0) [0, 1, 2, 3, 4, 5, 6, 7]),
               closed = False\<rparr>
   \<and> \<not> closed \<lparr>contents = [], closed = False\<rparr>
   \<and> 8 * nodeSize \<le> length (contents
         \<lparr>contents = concat (map (\<lambda>i. [i, 0, 0, 0, 1] @ replicate 67 0) [0, 1, 2, 3, 4, 5, 6, 7]),
          closed = False\<rparr>)
   \<and> getFree \<lparr>contents = [], closed = False\<rparr> = Inr (NOT 0)
   \<and> (case deleteNode
          \<lparr>contents = concat (map (\<lambda>i. [i, 0, 0, 0, 1] @ replicate 67 0) [0, 1, 2, 3, 4, 5, 6, 7]),
           closed = False\<rparr>
          \<lparr>contents = [], closed = False\<rparr> 3 of (e1, ns1, fs1) \<Rightarrow>
       case deleteNode ns1 fs1 7 of (e2, ns2, fs2) \<Rightarrow>
       case writeNode jsonPlain ns2 fs2 ''a'' of (e3, ns3, fs3) \<Rightarrow>
       case writeNode jsonPlain ns3 fs3 ''a'' of (e4, ns4, fs4) \<Rightarrow>
         readNode ns4 7 = Inr (usedNode 7 (jsonPlain ''a''))
         \<and> readNode ns4 3 = Inr (usedNode 3 (jsonPlain ''a''))
         \<and> getFree fs4 = Inr (NOT 0))"
proof -
  let ?ns = "\<lparr>contents = concat (map (\<lambda>i. [i, 0, 0, 0, 1] @ replicate 67 0) [0, 1, 2, 3, 4, 5, 6, 7]),
              closed = False\<rparr>"
  let ?fs = "\<lparr>contents = [], closed = False\<rparr>"
  have h1: "\<not> closed ?ns" by simp
  have h2: "\<not> closed ?fs" by simp
  have h3: "8 * nodeSize \<le> length (contents ?ns)" by (simp add: nodeSize_def)
  have h4: "getFree ?fs = Inr (NOT 0)" by (simp add: getFree_def ReadAt_def)
  show ?thesis
    using free_slot_reuse_is_LIFO [OF h1 h2 h3 h4, of jsonPlain "''a''" "''a''"] h1 h2 h3 h4
    by (auto split: prod.splits)
qed

section \<open>C2: the slot codec round-trips\<close>

text \<open>
  Claim C2. Decoding the bytes of an encoded node, as \<open>readNode\<close> does, gives back its
  ID, its InUse flag and its 64-byte value. For the records that delete and insert write:
  after \<open>deleteNode\<close> on ID \<open>k\<close>, \<open>readNode k\<close> returns the free node with ID \<open>k\<close>,
  InUse 0 and the old head as its link; after \<open>writeNode\<close> on its reuse path (head
  \<open>h\<close>) or its append path (a file of exactly \<open>k\<close> slots), \<open>readNode\<close> at the chosen
  ID returns that ID, InUse 1 and the stored value. The stored value is the first 64
  bytes of the encoding, filled with zero bytes: an encoding of at most 64 bytes is
  stored whole, a longer one is cut after byte 64.
\<close>

theorem slot_codec_round_trip:
  assumes "\<not> closed ns" and "\<not> closed fs" and "getFree fs = Inr h" and "length (Value r) = 64"
  shows "ID (decodeNode (serializeNode r)) = ID r
       \<and> InUse (decodeNode (serializeNode r)) = InUse r
       \<and> Value (decodeNode (serializeNode r)) = Value r
       \<and> readNode (fst (snd (deleteNode ns fs k))) k = Inr (freeNode k h)
       \<and> (h \<noteq> NOT 0 \<and> ReadAt ns nodeSize (unat h * nodeSize) = Inr buf \<longrightarrow>
            readNode (fst (snd (writeNode m ns fs v))) h = Inr (usedNode h (m v)))
       \<and> (h = NOT 0 \<and> length (contents ns) = unat k * nodeSize \<longrightarrow>
            readNode (fst (snd (writeNode m ns fs v))) k = Inr (usedNode k (m v)))
       \<and> Value (usedNode k (m v)) = take 64 (m v) @ replicate (64 - length (m v)) 0
       \<and> (length (m v) \<le> 64 \<longrightarrow> take (length (m v)) (Value (usedNode k (m v))) = m v)
       \<and> (64 < length (m v) \<longrightarrow> Value (usedNode k (m v)) = take 64 (m v))"
proof -
  have 1: "decodeNode (serializeNode r) = r\<lparr>Type := 0\<rparr>"
    using assms(4) by (rule decode_serialize)
  have 2: "readNode (fst (snd (deleteNode ns fs k))) k = Inr (freeNode k h)"
    using assms(1-3) by (rule readNode_after_deleteNode)
  have 3: "readNode (fst (snd (writeNode m ns fs v))) h = Inr (usedNode h (m v))"
    if "h \<noteq> NOT 0" and "ReadAt ns nodeSize (unat h * nodeSize) = Inr buf"
    using assms(1-3) that by (rule readNode_after_writeNode_reuse)
  have 4: "readNode (fst (snd (writeNode m ns fs v))) k = Inr (usedNode k (m v))"
    if "h = NOT 0" and "length (contents ns) = unat k * nodeSize"
    using assms(1,3) that by (simp add: readNode_after_writeNode_append)
  show ?thesis
    using 2 3 4 by (simp add: 1 Value_usedNode)
qed

theorem slot_codec_round_trip_witness:
  "(\<not> closed \<lparr>contents = replicate 72 0, closed = False\<rparr>
    \<and> \<not> closed \<lparr>contents = [0, 0, 0, 0], closed = False\<rparr>
    \<and> getFree \<lparr>contents = [0, 0, 0, 0], closed = False\<rparr> = Inr 0
    \<and> length (Value zeroNode) = 64
    \<and> (0 :: uint32) \<noteq> NOT 0
    \<and> ReadAt \<lparr>contents = replicate 72 0, closed = False\<rparr> nodeSize (unat (0 :: uint32) * nodeSize)
          = Inr (replicate 72 0)
    \<and> decodeNode (serializeNode zeroNode) = zeroNode
    \<and> readNode (fst (snd (writeNode (\<lambda>v. [34, 97, 34])
            \<lparr>contents = replicate 72 0, closed = False\<rparr>
            \<lparr>contents = [0, 0, 0, 0], closed = False\<rparr> ''a''))) 0
          = Inr (usedNode 0 [34, 97, 34]))
   \<and> (\<not> closed \<lparr>contents = [], closed = False\<rparr>
      \<and> getFree \<lparr>contents = [], closed = False\<rparr> = Inr (NOT 0)
      \<and> length (contents \<lparr>contents = [], closed = False\<rparr>) = unat (0 :: uint32) * nodeSize
      \<and> readNode (fst (snd (writeNode (\<lambda>v. [34, 97, 34])
            \<lparr>contents = [], closed = False\<rparr> \<lparr>contents = [], closed = False\<rparr> ''a''))) 0
          = Inr (usedNode 0 [34, 97, 34])
      \<and> Value (usedNode 0 [34, 97, 34]) = [34, 97, 34] @ replicate 61 0)"
proof -
  let ?ns = "\<lparr>contents = replicate 72 0, closed = False\<rparr>"
  let ?fs = "\<lparr>contents = [0, 0, 0, 0], closed = False\<rparr>"
  let ?e = "\<lparr>contents = [], closed = False\<rparr>"
  let ?m = "\<lambda>v :: string. [34, 97, 34 :: byte]"
  have a1: "\<not> closed ?ns" and a2: "\<not> closed ?fs" and b1: "\<not> closed ?e"
    by simp_all
  have a3: "getFree ?fs = Inr 0"
    by (simp add: getFree_def ReadAt_def)
  have a4: "length (Value zeroNode) = 64"
    by (simp add: zeroNode_def)
  have a5: "(0 :: uint32) \<noteq> NOT 0"
    by simp
  have a6: "ReadAt ?ns nodeSize (unat (0 :: uint32) * nodeSize) = Inr (replicate 72 0)"
    by (simp add: ReadAt_def nodeSize_def)
  have b3: "getFree ?e = Inr (NOT 0)"
    by (simp add: getFree_def ReadAt_def)
  have b4: "length (contents ?e) = unat (0 :: uint32) * nodeSize"
    by simp
  have z: "zeroNode\<lparr>Type := 0\<rparr> = zeroNode"
    by (simp add: zeroNode_def)
  note A = slot_codec_round_trip [OF a1 a2 a3 a4, of 0 "replicate 72 0" ?m "''a''"]
  note B = slot_codec_round_trip [OF b1 b1 b3 a4, of 0 "[]" ?m "''a''"]
  have A1: "decodeNode (serializeNode zeroNode) = zeroNode"
    using a4 z by (simp add: decode_serialize)
  have A2: "readNode (fst (snd (writeNode ?m ?ns ?fs ''a''))) 0 = Inr (usedNode 0 [34, 97, 34])"
    using A a5 a6 by blast
  have B1: "readNode (fst (snd (writeNode ?m ?e ?e ''a''))) 0 = Inr (usedNode 0 [34, 97, 34])"
    using B b4 by blast
  have B2: "Value (usedNode 0 [34, 97, 34]) = [34, 97, 34] @ replicate 61 0"
    using B by simp
  show ?thesis
    using a1 a2 a3 a4 a5 a6 b1 b3 b4 A1 A2 B1 B2 by blast
qed

section \<open>C3: the layout of a slot\<close>

text \<open>
  Claim C3, as amended. A slot is the ID (4 bytes, little-endian), the InUse flag
  (1 byte), three zero padding bytes and the value (64 bytes), in that order: 72 bytes,
  which is \<open>nodeSize\<close>, and the value begins at offset 8. The claim's layout with two
  padding bytes is \<open>spec_encode\<close>; it has 71 bytes and puts the value at offset 7, where
  the code writes a padding byte.
\<close>

theorem slot_layout_has_three_padding_bytes:
  assumes "length (Value n) = 64"
  shows "serializeNode n = PutUint32 (replicate 4 0) (ID n) @ [InUse n] @ [0, 0, 0] @ Value n
       \<and> length (PutUint32 (replicate 4 0) (ID n)) = 4
       \<and> Uint32 (PutUint32 (replicate 4 0) (ID n)) = ID n
       \<and> length (serializeNode n) = nodeSize
       \<and> nodeSize = 4 + 1 + 3 + 64
       \<and> drop 8 (serializeNode n) = Value n
       \<and> Value (decodeNode (serializeNode n)) = drop 8 (serializeNode n)"
proof -
  have p: "take 4 (PutUint32 (replicate 4 0) (ID n)) = PutUint32 (replicate 4 0) (ID n)"
    by (simp add: PutUint32_def)
  have 1: "serializeNode n = PutUint32 (replicate 4 0) (ID n) @ [InUse n] @ [0, 0, 0] @ Value n"
    using serializeNode_layout [OF assms] by (simp only: p)
  have 2: "length (PutUint32 (replicate 4 0) (ID n)) = 4"
    by (simp add: PutUint32_def)
  have 3: "Uint32 (PutUint32 (replicate 4 0) (ID n)) = ID n"
    by (rule Uint32_PutUint32)
  have 4: "length (serializeNode n) = nodeSize"
    by (rule length_serializeNode')
  have 5: "nodeSize = 4 + 1 + 3 + 64"
    by (simp add: nodeSize_def)
  have 6: "drop 8 (serializeNode n) = Value n"
    using assms by (rule serializeNode_parts(4))
  have 7: "Value (decodeNode (serializeNode n)) = drop 8 (serializeNode n)"
    using assms by (simp add: decode_serialize 6)
  from 1 2 3 4 5 6 7 show ?thesis by blast
qed

theorem slot_layout_has_three_padding_bytes_witness:
  "length (Value (usedNode 1 (replicate 64 255))) = 64
   \<and> serializeNode (usedNode 1 (replicate 64 255)) = [1, 0, 0, 0] @ [1] @ [0, 0, 0] @ replicate 64 255"
proof -
  have h: "length (Value (usedNode 1 (replicate 64 255))) = 64"
    by (rule length_usedNode)
  have "serializeNode (usedNode 1 (replicate 64 255)) = [1, 0, 0, 0] @ [1] @ [0, 0, 0] @ replicate 64 255"
    using slot_layout_has_three_padding_bytes [OF h]
    by (simp add: usedNode_def copy_def PutUint32_def)
  with h show ?thesis by blast
qed

text \<open>
  The claim as stated fails on the node with ID 1 and a value of 64 bytes 255: its slot
  differs from the layout with two padding bytes, and byte 7 of the slot is a padding
  byte, not the first byte of the value.
\<close>

theorem slot_layout_two_padding_bytes_counterexample:
  "serializeNode (usedNode 1 (replicate 64 255)) \<noteq> spec_encode (usedNode 1 (replicate 64 255))
   \<and> length (spec_encode (usedNode 1 (replicate 64 255))) \<noteq> nodeSize
   \<and> serializeNode (usedNode 1 (replicate 64 255)) ! (4 + 1 + 2) = 0
   \<and> hd (Value (usedNode 1 (replicate 64 255))) = 255"
proof -
  let ?n = "usedNode 1 (replicate 64 255)"
  have v: "Value ?n = replicate 64 255"
    by (simp add: usedNode_def copy_def)
  have s: "serializeNode ?n = PutUint32 (replicate 4 0) 1 @ [1] @ [0, 0, 0] @ replicate 64 255"
    using serializeNode_layout [OF length_usedNode, of 1 "replicate 64 255"]
    by (simp add: v PutUint32_def) (simp add: usedNode_def)
  have l: "length (spec_encode ?n) = 71"
    by (simp add: spec_encode_def v PutUint32_def)
  have 1: "serializeNode ?n \<noteq> spec_encode ?n"
    using l length_serializeNode [of ?n] by auto
  have 2: "length (spec_encode ?n) \<noteq> nodeSize"
    using l by (simp add: nodeSize_def)
  have 3: "serializeNode ?n ! (4 + 1 + 2) = 0"
    by (simp add: s PutUint32_def)
  have 4: "hd (Value ?n) = 255"
    by (simp only: v) simp
  from 1 2 3 4 show ?thesis by blast
qed

section \<open>C4: the append path\<close>

text \<open>
  Claim C4, as amended. When the head of the free list reads as the sentinel and the node
  file is open, \<open>writeNode\<close> returns no error whatever the size of the node file is: it
  takes the size as the offset, the size divided by \<open>nodeSize\<close>, rounded down and cut to
  32 bits, as the ID, and appends the occupied slot at the end of the file. When the file
  holds exactly \<open>k\<close> slots the ID is \<open>k\<close>, the offset is \<open>k * nodeSize\<close>, and
  \<open>readNode k\<close> returns the record.
\<close>

theorem append_takes_file_size_unchecked:
  assumes "\<not> closed ns" and "getFree fs = Inr (NOT 0)"
  shows "writeNode m ns fs v =
           (None, ns\<lparr>contents := contents ns
                    @ serializeNode (usedNode (word_of_nat (length (contents ns) div nodeSize)) (m v))\<rparr>, fs)
       \<and> (length (contents ns) = unat k * nodeSize \<longrightarrow>
            word_of_nat (length (contents ns) div nodeSize) = k
            \<and> readNode (fst (snd (writeNode m ns fs v))) k = Inr (usedNode k (m v)))"
proof -
  have 1: "writeNode m ns fs v =
           (None, ns\<lparr>contents := contents ns
                    @ serializeNode (usedNode (word_of_nat (length (contents ns) div nodeSize)) (m v))\<rparr>, fs)"
    using assms by (rule writeNode_append_contents)
  have 2: "word_of_nat (length (contents ns) div nodeSize) = k"
    if "length (contents ns) = unat k * nodeSize"
    using that by (simp add: nodeSize_def)
  have 3: "readNode (fst (snd (writeNode m ns fs v))) k = Inr (usedNode k (m v))"
    if "length (contents ns) = unat k * nodeSize"
    using assms that by (rule readNode_after_writeNode_append)
  from 1 2 3 show ?thesis by blast
qed

theorem append_takes_file_size_unchecked_witness:
  "\<not> closed \<lparr>contents = replicate 72 0, closed = False\<rparr>
   \<and> getFree \<lparr>contents = [], closed = False\<rparr> = Inr (NOT 0)
   \<and> length (contents \<lparr>contents = replicate 72 0, closed = False\<rparr>) = unat (1 :: uint32) * nodeSize
   \<and> readNode (fst (snd (writeNode jsonPlain \<lparr>contents = replicate 72 0, closed = False\<rparr>
                                     \<lparr>contents = [], closed = False\<rparr> ''a''))) 1
       = Inr (usedNode 1 (jsonPlain ''a''))"
proof -
  let ?ns = "\<lparr>contents = replicate 72 0, closed = False\<rparr>"
  let ?fs = "\<lparr>contents = [], closed = False\<rparr>"
  have h1: "\<not> closed ?ns" by simp
  have h2: "getFree ?fs = Inr (NOT 0)" by (rule getFree_empty)
  have h3: "length (contents ?ns) = unat (1 :: uint32) * nodeSize" by (simp add: nodeSize_def)
  show ?thesis
    using append_takes_file_size_unchecked [OF h1 h2, of jsonPlain "''a''" 1] h1 h2 h3 by blast
qed

text \<open>
  The claim as stated fails on a node file of one byte: 72 does not divide its size, and
  the insert returns no error and writes the slot with ID 0 at offset 1.
\<close>

theorem append_on_unaligned_file_counterexample:
  "\<not> nodeSize dvd length (contents \<lparr>contents = [0], closed = False\<rparr>)
   \<and> writeNode jsonPlain \<lparr>contents = [0], closed = False\<rparr> \<lparr>contents = [], closed = False\<rparr> ''a''
     = (None, \<lparr>contents = [0] @ serializeNode (usedNode 0 (jsonPlain ''a'')), closed = False\<rparr>,
        \<lparr>contents = [], closed = False\<rparr>)"
proof -
  let ?ns = "\<lparr>contents = [0], closed = False\<rparr>"
  let ?fs = "\<lparr>contents = [], closed = False\<rparr>"
  have h1: "\<not> closed ?ns" by simp
  have h2: "getFree ?fs = Inr (NOT 0)" by (rule getFree_empty)
  have 1: "\<not> nodeSize dvd length (contents ?ns)" by (simp add: nodeSize_def)
  have 2: "writeNode jsonPlain ?ns ?fs ''a''
     = (None, \<lparr>contents = [0] @ serializeNode (usedNode 0 (jsonPlain ''a'')), closed = False\<rparr>, ?fs)"
    using writeNode_append_contents [OF h1 h2, of jsonPlain "''a''"] by (simp add: nodeSize_def)
  from 1 2 show ?thesis by blast
qed

section \<open>C5: the reuse path pops the head of the free list\<close>

text \<open>
  Claim C5. When the head \<open>h\<close> of the free list is not the sentinel and both files are
  open, \<open>writeNode\<close> reads slot \<open>h\<close> of the node file. If that read succeeds with the
  bytes \<open>buf\<close>, it returns no error, the new head is the little-endian number in
  \<open>buf[8:12]\<close>, slot \<open>h\<close> holds the new occupied record with ID \<open>h\<close>, and the file
  keeps its length and every other slot. If the read fails, the insert returns that
  error and changes neither file.
\<close>

theorem insert_pops_free_list_head:
  assumes ons: "\<not> closed ns" and ofs: "\<not> closed fs"
    and hd: "getFree fs = Inr h" and ne: "h \<noteq> NOT 0"
  shows "(ReadAt ns nodeSize (unat h * nodeSize) = Inr buf \<longrightarrow>
            (case writeNode m ns fs v of (err, ns', fs') \<Rightarrow>
               err = None
               \<and> buf = slot ns (unat h)
               \<and> fs' = snd (setFree fs (Uint32 (take 4 (drop 8 buf))))
               \<and> getFree fs' = Inr (Uint32 (take 4 (drop 8 buf)))
               \<and> ns' = snd (WriteAt ns (serializeNode (usedNode h (m v))) (unat h * nodeSize))
               \<and> readNode ns' h = Inr (usedNode h (m v))
               \<and> length (contents ns') = length (contents ns)
               \<and> (\<forall>j. j \<noteq> h \<longrightarrow> readNode ns' j = readNode ns j)))
       \<and> (ReadAt ns nodeSize (unat h * nodeSize) = Inl e \<longrightarrow> writeNode m ns fs v = (Some e, ns, fs))"
proof (intro conjI impI)
  assume r: "ReadAt ns nodeSize (unat h * nodeSize) = Inr buf"
  let ?ns' = "snd (WriteAt ns (serializeNode (usedNode h (m v))) (unat h * nodeSize))"
  let ?fs' = "snd (setFree fs (Uint32 (take 4 (drop 8 buf))))"
  have w: "writeNode m ns fs v = (None, ?ns', ?fs')"
    using ons ofs hd ne r by (rule writeNode_reuse)
  have inr: "unat h * nodeSize + nodeSize \<le> length (contents ns)"
    using r by (auto simp: ReadAt_def split: if_splits)
  have 1: "buf = slot ns (unat h)"
    using r by (rule ReadAt_slot)
  have 2: "getFree ?fs' = Inr (Uint32 (take 4 (drop 8 buf)))"
    using ofs by (rule getFree_setFree)
  have 3: "readNode ?ns' h = Inr (usedNode h (m v))"
    using readNode_WriteAt_same [OF ons length_usedNode, of h "m v" h] by (simp add: usedNode_Type)
  have 4: "length (contents ?ns') = length (contents ns)"
    using ons inr by (simp add: length_WriteAt_inside length_serializeNode')
  have 5: "\<forall>j. j \<noteq> h \<longrightarrow> readNode ?ns' j = readNode ns j"
    using ons inr by (simp add: readNode_WriteAt_same_length length_serializeNode')
  show "case writeNode m ns fs v of (err, ns', fs') \<Rightarrow>
               err = None
               \<and> buf = slot ns (unat h)
               \<and> fs' = snd (setFree fs (Uint32 (take 4 (drop 8 buf))))
               \<and> getFree fs' = Inr (Uint32 (take 4 (drop 8 buf)))
               \<and> ns' = snd (WriteAt ns (serializeNode (usedNode h (m v))) (unat h * nodeSize))
               \<and> readNode ns' h = Inr (usedNode h (m v))
               \<and> length (contents ns') = length (contents ns)
               \<and> (\<forall>j. j \<noteq> h \<longrightarrow> readNode ns' j = readNode ns j)"
    unfolding w prod.case using 1 2 3 4 5 by blast
next
  assume "ReadAt ns nodeSize (unat h * nodeSize) = Inl e"
  with hd ne show "writeNode m ns fs v = (Some e, ns, fs)"
    by (rule writeNode_reuse_read_fails)
qed

theorem insert_pops_free_list_head_witness:
  "(\<not> closed \<lparr>contents = replicate 72 0, closed = False\<rparr>
    \<and> \<not> closed \<lparr>contents = [0, 0, 0, 0], closed = False\<rparr>
    \<and> getFree \<lparr>contents = [0, 0, 0, 0], closed = False\<rparr> = Inr 0
    \<and> (0 :: uint32) \<noteq> NOT 0
    \<and> ReadAt \<lparr>contents = replicate 72 0, closed = False\<rparr> nodeSize (unat (0 :: uint32) * nodeSize)
          = Inr (replicate 72 0)
    \<and> readNode (fst (snd (writeNode jsonPlain \<lparr>contents = replicate 72 0, closed = False\<rparr>
                                      \<lparr>contents = [0, 0, 0, 0], closed = False\<rparr> ''a''))) 0
          = Inr (usedNode 0 (jsonPlain ''a'')))
   \<and> (\<not> closed \<lparr>contents = [], closed = False\<rparr>
      \<and> \<not> closed \<lparr>contents = [5, 0, 0, 0], closed = False\<rparr>
      \<and> getFree \<lparr>contents = [5, 0, 0, 0], closed = False\<rparr> = Inr 5
      \<and> (5 :: uint32) \<noteq> NOT 0
      \<and> ReadAt \<lparr>contents = [], closed = False\<rparr> nodeSize (unat (5 :: uint32) * nodeSize) = Inl EOF
      \<and> writeNode jsonPlain \<lparr>contents = [], closed = False\<rparr>
            \<lparr>contents = [5, 0, 0, 0], closed = False\<rparr> ''a''
          = (Some EOF, \<lparr>contents = [], closed = False\<rparr>, \<lparr>contents = [5, 0, 0, 0], closed = False\<rparr>))"
proof -
  let ?ns = "\<lparr>contents = replicate 72 0, closed = False\<rparr>"
  let ?fs = "\<lparr>contents = [0, 0, 0, 0], closed = False\<rparr>"
  let ?e = "\<lparr>contents = [], closed = False\<rparr>"
  let ?f5 = "\<lparr>contents = [5, 0, 0, 0], closed = False\<rparr>"
  have a1: "\<not> closed ?ns" and a2: "\<not> closed ?fs" and b1: "\<not> closed ?e" and b2: "\<not> closed ?f5"
    by simp_all
  have a3: "getFree ?fs = Inr 0"
    by (simp add: getFree_def ReadAt_def)
  have a4: "(0 :: uint32) \<noteq> NOT 0"
    by simp
  have a5: "ReadAt ?ns nodeSize (unat (0 :: uint32) * nodeSize) = Inr (replicate 72 0)"
    by (simp add: ReadAt_def nodeSize_def)
  have b3: "getFree ?f5 = Inr 5"
    by (simp add: getFree_def ReadAt_def)
  have b4: "(5 :: uint32) \<noteq> NOT 0"
    by simp
  have b5: "ReadAt ?e nodeSize (unat (5 :: uint32) * nodeSize) = Inl EOF"
    by (simp add: ReadAt_def nodeSize_def)
  note A = insert_pops_free_list_head [OF a1 a2 a3 a4, of "replicate 72 0" jsonPlain "''a''" EOF]
  note B = insert_pops_free_list_head [OF b1 b2 b3 b4, of "[]" jsonPlain "''a''" EOF]
  have A1: "readNode (fst (snd (writeNode jsonPlain ?ns ?fs ''a''))) 0 = Inr (usedNode 0 (jsonPlain ''a''))"
    using A a5 by (auto split: prod.splits)
  have B1: "writeNode jsonPlain ?e ?f5 ''a'' = (Some EOF, ?e, ?f5)"
    using B b5 by blast
  show ?thesis
    using a1 a2 a3 a4 a5 b1 b2 b3 b4 b5 A1 B1 by blast
qed

section \<open>C8: the scan\<close>

text \<open>
  Claim C8. \<open>readStore\<close> never returns an error. On an open file it returns the decoded
  slots 0, 1, ... in ascending order, one for every whole slot of the file: the read of
  slot \<open>i\<close> succeeds exactly when \<open>i\<close> is below the number of whole slots, so the first
  read that fails is the one after the last whole slot, and it ends the scan. On a closed
  handle the first read fails and the result is the empty list, as it is for an empty
  file.
\<close>

theorem scan_reads_every_whole_slot_and_never_fails:
  "readStore f =
     Inr (if closed f then []
          else map (\<lambda>i. decodeNode (slot f i)) [0 ..< length (contents f) div nodeSize])
   \<and> ReadAt f nodeSize (i * nodeSize) =
       (if closed f then Inl ErrClosed
        else if i < length (contents f) div nodeSize then Inr (slot f i) else Inl EOF)
   \<and> readStore \<lparr>contents = [], closed = c\<rparr> = Inr []"
  by (simp add: readStore_eq ReadAt_slot_iff)

theorem scan_reads_every_whole_slot_and_never_fails_witness:
  "readStore \<lparr>contents = serializeNode (usedNode 0 (jsonPlain ''a'')) @ serializeNode (freeNode 1 (NOT 0)) @ [0, 0, 0],
             closed = False\<rparr>
     = Inr [usedNode 0 (jsonPlain ''a''), freeNode 1 (NOT 0)]"
proof -
  let ?a = "serializeNode (usedNode 0 (jsonPlain ''a''))"
  let ?b = "serializeNode (freeNode 1 (NOT 0))"
  let ?f = "\<lparr>contents = ?a @ ?b @ [0, 0, 0], closed = False\<rparr>"
  have n: "length (contents ?f) div nodeSize = 2"
    by (simp add: length_serializeNode nodeSize_def)
  have s0: "slot ?f 0 = ?a"
    by (simp add: slot_def length_serializeNode')
  have s1: "slot ?f 1 = ?b"
    by (simp add: slot_def length_serializeNode')
  have u: "[0 ..< 2] = [0, 1 :: nat]"
    by (simp add: upt_conv_Cons)
  have "readStore ?f = Inr (map (\<lambda>i. decodeNode (slot ?f i)) [0 ..< length (contents ?f) div nodeSize])"
    using scan_reads_every_whole_slot_and_never_fails [of ?f 0 False] by simp
  then show ?thesis
    by (simp only: n u list.map s0 s1 decode_serialize_usedNode decode_serialize_freeNode)
qed

section \<open>C6: a deleted slot can be read but is not listed\<close>

text \<open>
  Claim C6. Let slot \<open>k\<close> of the node file be occupied (\<open>readNode k\<close> succeeds with
  InUse 1), the free-list file be open with head \<open>h\<close>, and \<open>nodes\<close> be the scan before
  the deletion. Then \<open>deleteNode k\<close> returns no error; afterwards \<open>readNode k\<close> succeeds
  and returns ID \<open>k\<close> with InUse 0; the scan is the old one with position \<open>k\<close>
  replaced by that free node; and \<open>comReadAll\<close> lists the occupied nodes of all the other
  positions, so slot \<open>k\<close> is not listed. If moreover every occupied slot of the old scan
  carries its own position as ID, no listed record has ID \<open>k\<close>.
\<close>

theorem deleted_slot_is_readable_and_not_listed:
  assumes occ: "readNode ns k = Inr n" and inuse: "InUse n = 1"
    and ofs: "\<not> closed fs" and hd: "getFree fs = Inr h"
    and scan: "readStore ns = Inr nodes"
  shows "case deleteNode ns fs k of (err, ns', fs') \<Rightarrow>
           err = None
           \<and> readNode ns' k = Inr (freeNode k h)
           \<and> ID (freeNode k h) = k \<and> InUse (freeNode k h) = 0
           \<and> unat k < length nodes \<and> nodes ! unat k = n
           \<and> readStore ns' = Inr (nodes[unat k := freeNode k h])
           \<and> comReadAll ns' =
               Inr (map (\<lambda>node. (ID node, Value node))
                     (filter (\<lambda>node. InUse node = 1) (take (unat k) nodes @ drop (Suc (unat k)) nodes)))
           \<and> ((\<forall>i < length nodes. InUse (nodes ! i) = 1 \<longrightarrow> unat (ID (nodes ! i)) = i) \<longrightarrow>
                (\<forall>p. comReadAll ns' = Inr p \<longrightarrow> k \<notin> fst ` set p))"
proof -
  note rn = readNode_Inr [OF occ]
  let ?fr = "freeNode k h"
  let ?ns' = "snd (WriteAt ns (serializeNode ?fr) (unat k * nodeSize))"
  let ?fs' = "snd (setFree fs k)"
  let ?rest = "take (unat k) nodes @ drop (Suc (unat k)) nodes"
  let ?out = "map (\<lambda>node. (ID node, Value node)) (filter (\<lambda>node. InUse node = 1) ?rest)"
  have d: "deleteNode ns fs k = (None, ?ns', ?fs')"
    using rn(1) ofs hd by (rule deleteNode_open)
  have 1: "readNode ?ns' k = Inr ?fr"
    using readNode_after_deleteNode [OF rn(1) ofs hd, of k] by (simp add: d)
  have 2: "ID ?fr = k" and 3: "InUse ?fr = 0"
    by (simp_all add: freeNode_def)
  have nodes: "nodes = map (\<lambda>i. decodeNode (slot ns i)) [0 ..< length (contents ns) div nodeSize]"
    using scan rn(1) by (simp add: readStore_eq)
  have 4: "unat k < length nodes"
    using rn(4) by (simp add: nodes)
  have 5: "nodes ! unat k = n"
    using rn(3,4) by (simp add: nodes)
  have 6: "readStore ?ns' = Inr (nodes[unat k := ?fr])"
    using readStore_WriteAt [OF rn(1) length_serializeNode' rn(2) scan, of ?fr]
    by (simp add: decode_serialize_freeNode)
  have 7: "comReadAll ?ns' = Inr ?out"
    using 4 3 by (simp add: comReadAll_def 6 filter_update_dropped)
  have 8: "\<forall>p. comReadAll ?ns' = Inr p \<longrightarrow> k \<notin> fst ` set p"
    if wf: "\<forall>i < length nodes. InUse (nodes ! i) = 1 \<longrightarrow> unat (ID (nodes ! i)) = i"
  proof (intro allI impI)
    fix p
    assume "comReadAll ?ns' = Inr p"
    with 7 have p: "p = ?out" by simp
    show "k \<notin> fst ` set p"
    proof
      assume "k \<in> fst ` set p"
      then obtain q where q: "q \<in> set p" and fq: "fst q = k"
        by auto
      from q obtain x where xf: "x \<in> set (filter (\<lambda>node. InUse node = 1) ?rest)"
        and qx: "q = (ID x, Value x)"
        unfolding p by (auto simp only: set_map)
      from xf have x: "x \<in> set ?rest" and u: "InUse x = 1"
        by auto
      from fq qx have ix: "ID x = k"
        by simp
      from in_set_take_drop [OF x] obtain i where i: "i < length nodes" "i \<noteq> unat k" "x = nodes ! i"
        by blast
      with wf u have "unat (ID x) = i" by simp
      with ix i(2) show False by simp
    qed
  qed
  show ?thesis
    unfolding d prod.case using 1 2 3 4 5 6 7 8 by blast
qed

theorem deleted_slot_is_readable_and_not_listed_witness:
  "readNode \<lparr>contents = serializeNode (usedNode 0 (jsonPlain ''a'')) @ serializeNode (usedNode 1 (jsonPlain ''b'')), closed = False\<rparr> 1 = Inr (usedNode 1 (jsonPlain ''b''))
   \<and> InUse (usedNode 1 (jsonPlain ''b'')) = 1
   \<and> \<not> closed \<lparr>contents = [], closed = False\<rparr>
   \<and> getFree \<lparr>contents = [], closed = False\<rparr> = Inr (NOT 0)
   \<and> readStore \<lparr>contents = serializeNode (usedNode 0 (jsonPlain ''a'')) @ serializeNode (usedNode 1 (jsonPlain ''b'')), closed = False\<rparr> = Inr [usedNode 0 (jsonPlain ''a''), usedNode 1 (jsonPlain ''b'')]
   \<and> unat (ID (usedNode 0 (jsonPlain ''a''))) = 0
   \<and> unat (ID (usedNode 1 (jsonPlain ''b''))) = 1
   \<and> fst (deleteNode \<lparr>contents = serializeNode (usedNode 0 (jsonPlain ''a'')) @ serializeNode (usedNode 1 (jsonPlain ''b'')), closed = False\<rparr> \<lparr>contents = [], closed = False\<rparr> 1) = None
   \<and> readNode (fst (snd (deleteNode \<lparr>contents = serializeNode (usedNode 0 (jsonPlain ''a'')) @ serializeNode (usedNode 1 (jsonPlain ''b'')), closed = False\<rparr> \<lparr>contents = [], closed = False\<rparr> 1))) 1 = Inr (freeNode 1 (NOT 0))
   \<and> comReadAll (fst (snd (deleteNode \<lparr>contents = serializeNode (usedNode 0 (jsonPlain ''a'')) @ serializeNode (usedNode 1 (jsonPlain ''b'')), closed = False\<rparr> \<lparr>contents = [], closed = False\<rparr> 1)))
       = Inr [(0, Value (usedNode 0 (jsonPlain ''a'')))]
   \<and> 1 \<notin> fst ` set [(0 :: uint32, Value (usedNode 0 (jsonPlain ''a'')))]"
proof -
  let ?a = "usedNode 0 (jsonPlain ''a'')"
  let ?b = "usedNode 1 (jsonPlain ''b'')"
  let ?ns = "\<lparr>contents = serializeNode (usedNode 0 (jsonPlain ''a'')) @ serializeNode (usedNode 1 (jsonPlain ''b'')), closed = False\<rparr>"
  let ?fs = "\<lparr>contents = [], closed = False\<rparr>"
  have r: "ReadAt ?ns nodeSize (unat (1 :: uint32) * nodeSize) = Inr (serializeNode ?b)"
    by (simp add: ReadAt_def length_serializeNode')
  have h1: "readNode ?ns 1 = Inr ?b"
    using r by (simp add: readNode_def Let_def decode_serialize_usedNode)
  have h2: "InUse ?b = 1"
    by (simp add: usedNode_def)
  have h3: "\<not> closed ?fs"
    by simp
  have h4: "getFree ?fs = Inr (NOT 0)"
    by (rule getFree_empty)
  have n: "length (contents ?ns) div nodeSize = 2"
    by (simp add: length_serializeNode nodeSize_def)
  have s0: "slot ?ns 0 = serializeNode ?a" and s1: "slot ?ns 1 = serializeNode ?b"
    by (simp_all add: slot_def length_serializeNode')
  have u: "[0 ..< 2] = [0, 1 :: nat]"
    by (simp add: upt_conv_Cons)
  have "readStore ?ns = Inr (map (\<lambda>i. decodeNode (slot ?ns i)) [0 ..< length (contents ?ns) div nodeSize])"
    by (simp add: readStore_eq)
  then have h5: "readStore ?ns = Inr [?a, ?b]"
    by (simp only: n u list.map s0 s1 decode_serialize_usedNode)
  have h6: "\<forall>i < length [?a, ?b]. InUse ([?a, ?b] ! i) = 1 \<longrightarrow> unat (ID ([?a, ?b] ! i)) = i"
    by (simp add: usedNode_def less_Suc_eq)
  note T = deleted_slot_is_readable_and_not_listed [OF h1 h2 h3 h4 h5]
  have c1: "fst (deleteNode ?ns ?fs 1) = None"
    using T by (auto split: prod.splits)
  have c2: "readNode (fst (snd (deleteNode ?ns ?fs 1))) 1 = Inr (freeNode 1 (NOT 0))"
    using T by (auto split: prod.splits)
  have c3: "comReadAll (fst (snd (deleteNode ?ns ?fs 1))) = Inr [(0, Value ?a)]"
    using T by (auto simp: usedNode_def split: prod.splits)
  have c4: "\<forall>p. comReadAll (fst (snd (deleteNode ?ns ?fs 1))) = Inr p \<longrightarrow> 1 \<notin> fst ` set p"
    using T h6 by (auto split: prod.splits)
  have c5: "1 \<notin> fst ` set [(0 :: uint32, Value ?a)]"
    using c3 c4 by blast
  have i0: "unat (ID ?a) = 0" and i1: "unat (ID ?b) = 1"
    by (simp_all add: usedNode_def)
  show ?thesis
    using h1 h2 h3 h4 h5 i0 i1 c1 c2 c3 c5 by blast
qed

section \<open>C7: reading the head of the free list never fails\<close>

text \<open>
  Claim C7. \<open>getFree\<close> never returns an error: its result is the sentinel when the
  handle is closed or the file has fewer than four bytes (so whenever the 4-byte read
  fails, and in particular on an empty file), and the little-endian number in the first
  four bytes otherwise. The free-list file of a store that has never had a deletion is
  empty, since only \<open>deleteNode\<close> and the reuse path of \<open>writeNode\<close> write it; on such a
  store with an open node file every insert of a run of inserts returns no error, takes
  the append path (the slot is added at the end of the node file, with the next slot
  number as ID) and leaves the free-list file empty.
\<close>

theorem head_read_never_fails:
  "getFree f = Inr (if closed f \<or> length (contents f) < 4 then NOT 0 else Uint32 (take 4 (contents f)))
   \<and> (ReadAt f 4 0 = Inl e \<longrightarrow> getFree f = Inr (NOT 0))
   \<and> getFree \<lparr>contents = [], closed = c\<rparr> = Inr (NOT 0)
   \<and> (\<not> closed ns \<longrightarrow>
        runAll m ns \<lparr>contents = [], closed = c\<rparr> (map Insert vs) =
          (replicate (length vs) None,
           ns\<lparr>contents := contents ns
                @ concat (map (\<lambda>(i, v). serializeNode (usedNode (word_of_nat i) (m v)))
                            (enumerate (length (contents ns) div nodeSize) vs))\<rparr>,
           \<lparr>contents = [], closed = c\<rparr>))"
proof -
  have 1: "getFree f = Inr (if closed f \<or> length (contents f) < 4 then NOT 0 else Uint32 (take 4 (contents f)))"
    by (rule getFree_total)
  have 2: "getFree f = Inr (NOT 0)" if "ReadAt f 4 0 = Inl e"
    using that by (simp add: getFree_def)
  have 3: "getFree \<lparr>contents = [], closed = c\<rparr> = Inr (NOT 0)"
    by (rule getFree_empty)
  have 4: "runAll m ns \<lparr>contents = [], closed = c\<rparr> (map Insert vs) =
          (replicate (length vs) None,
           ns\<lparr>contents := contents ns
                @ concat (map (\<lambda>(i, v). serializeNode (usedNode (word_of_nat i) (m v)))
                            (enumerate (length (contents ns) div nodeSize) vs))\<rparr>,
           \<lparr>contents = [], closed = c\<rparr>)" if "\<not> closed ns"
    using that 3 by (rule runAll_inserts_append)
  from 1 2 3 4 show ?thesis by blast
qed

theorem head_read_never_fails_witness:
  "ReadAt \<lparr>contents = [1, 2], closed = False\<rparr> 4 0 = Inl EOF
   \<and> getFree \<lparr>contents = [1, 2], closed = False\<rparr> = Inr (NOT 0)
   \<and> ReadAt \<lparr>contents = [1, 2, 3, 4], closed = True\<rparr> 4 0 = Inl ErrClosed
   \<and> getFree \<lparr>contents = [1, 2, 3, 4], closed = True\<rparr> = Inr (NOT 0)
   \<and> \<not> closed \<lparr>contents = [], closed = False\<rparr>
   \<and> runAll jsonPlain \<lparr>contents = [], closed = False\<rparr> \<lparr>contents = [], closed = False\<rparr>
        (map Insert [''a'', ''b''])
      = ([None, None],
         \<lparr>contents = serializeNode (usedNode 0 (jsonPlain ''a'')) @ serializeNode (usedNode 1 (jsonPlain ''b'')),
          closed = False\<rparr>,
         \<lparr>contents = [], closed = False\<rparr>)"
proof -
  let ?e = "\<lparr>contents = [], closed = False\<rparr>"
  have h1: "ReadAt \<lparr>contents = [1, 2], closed = False\<rparr> 4 0 = Inl EOF"
    by (simp add: ReadAt_def)
  have h2: "ReadAt \<lparr>contents = [1, 2, 3, 4], closed = True\<rparr> 4 0 = Inl ErrClosed"
    by (simp add: ReadAt_def)
  have h3: "\<not> closed ?e"
    by simp
  have c1: "getFree \<lparr>contents = [1, 2], closed = False\<rparr> = Inr (NOT 0)"
    using head_read_never_fails [of "\<lparr>contents = [1, 2], closed = False\<rparr>" EOF] h1 by blast
  have c2: "getFree \<lparr>contents = [1, 2, 3, 4], closed = True\<rparr> = Inr (NOT 0)"
    using head_read_never_fails [of "\<lparr>contents = [1, 2, 3, 4], closed = True\<rparr>" ErrClosed] h2 by blast
  have "runAll jsonPlain ?e ?e (map Insert [''a'', ''b'']) =
          (replicate (length [''a'', ''b'']) None,
           ?e\<lparr>contents := contents ?e
                @ concat (map (\<lambda>(i, v). serializeNode (usedNode (word_of_nat i) (jsonPlain v)))
                            (enumerate (length (contents ?e) div nodeSize) [''a'', ''b'']))\<rparr>,
           ?e)"
    using head_read_never_fails [of ?e EOF False ?e jsonPlain "[''a'', ''b'']"] h3 by blast
  then have c3: "runAll jsonPlain ?e ?e (map Insert [''a'', ''b''])
      = ([None, None],
         \<lparr>contents = serializeNode (usedNode 0 (jsonPlain ''a'')) @ serializeNode (usedNode 1 (jsonPlain ''b'')),
          closed = False\<rparr>, ?e)"
    by (simp add: nodeSize_def)
  from h1 h2 h3 c1 c2 c3 show ?thesis by blast
qed

section \<open>C9: the file names of a store\<close>

text \<open>
  Claim C9 at the store name \<open>g\<close>. \<open>createStore\<close> in an empty directory creates
  \<open>g.db\<close> and \<open>g_free.db\<close>, and \<open>openStore\<close> opens these two files. \<open>comClose\<close> on the
  same name opens \<open>g\<close> instead, which does not exist, and returns an error; it
  succeeds in a directory that holds \<open>g\<close> and \<open>g_free\<close>, the two paths it does open.
\<close>

theorem comClose_opens_other_files_than_openStore:
  "createStore Map.empty ''g''
     = (Inr (''g.db'', ''g_free.db''), Map.empty(''g.db'' \<mapsto> Regular [], ''g_free.db'' \<mapsto> Regular []))
   \<and> openStore (snd (createStore Map.empty ''g'')) ''g'' = Inr (''g.db'', ''g_free.db'')
   \<and> comClose (snd (createStore Map.empty ''g'')) ''g'' = Inl (Errorf ''file g does not exist'')
   \<and> comClose (Map.empty(''g'' \<mapsto> Regular [], ''g_free'' \<mapsto> Regular [])) ''g'' = Inr (''g'', ''g_free'')"
  by (simp add: createStore_def openStore_def comClose_def OpenFile_def)

section \<open>C10: deleting the same ID twice\<close>

text \<open>
  Claim C10, as amended. On open files \<open>deleteNode\<close> returns no error for every ID
  \<open>k\<close> and overwrites the slot at \<open>k * nodeSize\<close> with the free node, whatever the node
  file contains and however long it is. After two deletions of \<open>k\<close> in a row the head
  of the free list is \<open>k\<close> and the link stored in slot \<open>k\<close> is \<open>k\<close> too. If \<open>k\<close> is not
  the sentinel, the next insert writes its record with ID \<open>k\<close> and leaves the head at
  \<open>k\<close>; the insert after it writes its record with ID \<open>k\<close> again, over the previous
  one, and sets the head to the first four bytes of the previous record's value.
\<close>

theorem double_delete_makes_self_loop:
  assumes "\<not> closed ns" and "\<not> closed fs" and "getFree fs = Inr h"
  shows "case deleteNode ns fs k of (e1, ns1, fs1) \<Rightarrow>
         case deleteNode ns1 fs1 k of (e2, ns2, fs2) \<Rightarrow>
           e1 = None \<and> e2 = None
           \<and> ns1 = snd (WriteAt ns (serializeNode (freeNode k h)) (unat k * nodeSize))
           \<and> ns2 = snd (WriteAt ns1 (serializeNode (freeNode k k)) (unat k * nodeSize))
           \<and> getFree fs2 = Inr k
           \<and> readNode ns2 k = Inr (freeNode k k)
           \<and> Uint32 (take 4 (Value (freeNode k k))) = k
           \<and> (k \<noteq> NOT 0 \<longrightarrow>
                (case writeNode m ns2 fs2 v1 of (e3, ns3, fs3) \<Rightarrow>
                 case writeNode m ns3 fs3 v2 of (e4, ns4, fs4) \<Rightarrow>
                   e3 = None
                   \<and> readNode ns3 k = Inr (usedNode k (m v1))
                   \<and> getFree fs3 = Inr k
                   \<and> e4 = None
                   \<and> readNode ns4 k = Inr (usedNode k (m v2))
                   \<and> getFree fs4 = Inr (Uint32 (take 4 (Value (usedNode k (m v1)))))))"
  using assms by (rule double_delete_then_two_inserts)

theorem double_delete_makes_self_loop_witness:
  "\<not> closed \<lparr>contents = replicate 72 0, closed = False\<rparr>
   \<and> \<not> closed \<lparr>contents = [], closed = False\<rparr>
   \<and> getFree \<lparr>contents = [], closed = False\<rparr> = Inr (NOT 0)
   \<and> (0 :: uint32) \<noteq> NOT 0
   \<and> (case deleteNode \<lparr>contents = replicate 72 0, closed = False\<rparr> \<lparr>contents = [], closed = False\<rparr> 0 of (e1, ns1, fs1) \<Rightarrow>
       case deleteNode ns1 fs1 0 of (e2, ns2, fs2) \<Rightarrow>
         getFree fs2 = Inr 0
         \<and> readNode ns2 0 = Inr (freeNode 0 0)
         \<and> (case writeNode jsonPlain ns2 fs2 ''b'' of (e3, ns3, fs3) \<Rightarrow>
              case writeNode jsonPlain ns3 fs3 ''c'' of (e4, ns4, fs4) \<Rightarrow>
                readNode ns3 0 = Inr (usedNode 0 (jsonPlain ''b''))
                \<and> getFree fs3 = Inr 0
                \<and> readNode ns4 0 = Inr (usedNode 0 (jsonPlain ''c''))
                \<and> getFree fs4 = Inr (Uint32 (take 4 (Value (usedNode 0 (jsonPlain ''b'')))))))"
proof -
  let ?ns = "\<lparr>contents = replicate 72 0, closed = False\<rparr>"
  let ?e = "\<lparr>contents = [], closed = False\<rparr>"
  have h1: "\<not> closed ?ns" and h2: "\<not> closed ?e"
    by simp_all
  have h3: "getFree ?e = Inr (NOT 0)"
    by (rule getFree_empty)
  have h4: "(0 :: uint32) \<noteq> NOT 0"
    by simp
  show ?thesis
    using double_delete_makes_self_loop [OF h1 h2 h3, of 0 jsonPlain "''b''" "''c''"] h1 h2 h3 h4
    by (auto split: prod.splits)
qed

text \<open>
  The claim as stated fails at the third insert after the two deletions. On a new store:
  insert a, delete 0, delete 0, insert b, insert c leaves the record of c in slot 0 and
  the first four bytes of the value of b as the head, which is not the sentinel. The
  next insert reads the slot at that head, beyond the end of the file, and returns
  \<open>EOF\<close>: it does not write ID 0 again.
\<close>

theorem third_insert_after_double_delete_counterexample:
  "runAll jsonPlain \<lparr>contents = [], closed = False\<rparr> \<lparr>contents = [], closed = False\<rparr> [Insert ''a'', Delete 0, Delete 0, Insert ''b'', Insert ''c'']
     = ([None, None, None, None, None],
        \<lparr>contents = serializeNode (usedNode 0 (jsonPlain ''c'')), closed = False\<rparr>,
        \<lparr>contents = [34, 98, 34, 0], closed = False\<rparr>)
   \<and> getFree \<lparr>contents = [34, 98, 34, 0], closed = False\<rparr> = Inr 2253346
   \<and> (2253346 :: uint32) \<noteq> NOT 0
   \<and> writeNode jsonPlain \<lparr>contents = serializeNode (usedNode 0 (jsonPlain ''c'')), closed = False\<rparr>
        \<lparr>contents = [34, 98, 34, 0], closed = False\<rparr> ''d''
     = (Some EOF, \<lparr>contents = serializeNode (usedNode 0 (jsonPlain ''c'')), closed = False\<rparr>,
        \<lparr>contents = [34, 98, 34, 0], closed = False\<rparr>)"
proof -
  let ?e = "\<lparr>contents = [], closed = False\<rparr>"
  let ?h0 = "\<lparr>contents = PutUint32 (replicate 4 0) 0, closed = False\<rparr>"
  let ?hb = "\<lparr>contents = [34, 98, 34, 0], closed = False\<rparr>"
  let ?a = "\<lparr>contents = serializeNode (usedNode 0 (jsonPlain ''a'')), closed = False\<rparr>"
  let ?f1 = "\<lparr>contents = serializeNode (freeNode 0 (NOT 0)), closed = False\<rparr>"
  let ?f2 = "\<lparr>contents = serializeNode (freeNode 0 0), closed = False\<rparr>"
  let ?b = "\<lparr>contents = serializeNode (usedNode 0 (jsonPlain ''b'')), closed = False\<rparr>"
  let ?c = "\<lparr>contents = serializeNode (usedNode 0 (jsonPlain ''c'')), closed = False\<rparr>"
  have oe: "\<not> closed ?e" by simp
  have s1: "writeNode jsonPlain ?e ?e ''a'' = (None, ?a, ?e)"
    using writeNode_append_contents [OF oe getFree_empty [of False], of jsonPlain "''a''"] by simp
  have g0: "getFree ?h0 = Inr 0" and o0: "\<not> closed ?h0" and l0: "length (contents ?h0) \<le> 4"
    by (simp_all add: getFree_Put) (simp add: PutUint32_def)
  have le: "length (contents ?e) \<le> 4"
    by simp
  have p0: "?h0\<lparr>contents := PutUint32 (replicate 4 0) 0\<rparr> = ?h0"
    by simp
  have s2: "deleteNode ?a ?e 0 = (None, ?f1, ?h0)"
    using deleteNode_single_slot [OF getFree_empty oe le, where x = "usedNode 0 (jsonPlain ''a'')"]
    by simp
  have s3: "deleteNode ?f1 ?h0 0 = (None, ?f2, ?h0)"
    using deleteNode_single_slot [OF g0 o0 l0, where x = "freeNode 0 (NOT 0)"]
    by (simp only: p0)
  have s4: "writeNode jsonPlain ?f2 ?h0 ''b'' = (None, ?b, ?h0)"
    using writeNode_single_slot [OF g0 o0 l0, where x = "freeNode 0 0" and m = jsonPlain and v = "''b''"]
    by (simp only: link_of_freeNode p0)
  have pb: "?h0\<lparr>contents := PutUint32 (replicate 4 0) 2253346\<rparr> = ?hb"
    by (simp add: Put_link_b)
  have s5: "writeNode jsonPlain ?b ?h0 ''c'' = (None, ?c, ?hb)"
    using writeNode_single_slot [OF g0 o0 l0, where x = "usedNode 0 (jsonPlain ''b'')" and m = jsonPlain and v = "''c''"]
    by (simp only: link_of_usedNode link_b pb)
  have g: "getFree ?hb = Inr 2253346"
    using getFree_Put [of 2253346] by (simp only: Put_link_b)
  have ne: "(2253346 :: uint32) \<noteq> NOT 0"
    by simp
  have r: "ReadAt ?c nodeSize (unat (2253346 :: uint32) * nodeSize) = Inl EOF"
    by (simp add: ReadAt_def length_serializeNode nodeSize_def)
  have s6: "writeNode jsonPlain ?c ?hb ''d'' = (Some EOF, ?c, ?hb)"
    using g ne r by (rule writeNode_reuse_read_fails)
  have run: "runAll jsonPlain ?e ?e [Insert ''a'', Delete 0, Delete 0, Insert ''b'', Insert ''c'']
     = ([None, None, None, None, None], ?c, ?hb)"
    by (simp only: runAll.simps runCommand.simps comInsert_eq comDelete_eq s1 s2 s3 s4 s5 prod.case)
  from run g ne s6 show ?thesis by blast
qed

end
